theory Spec2Isabelle
  imports Complex_Main
begin

section \<open>Job recommendation pipeline: data model\<close>

text \<open>
  The pipeline of \<^verbatim>\<open>notebook/generate_data.py\<close>: a stratified sampler over the parsed
  feed, per-feature similarity matrices, their weighted blend, and the top-N extractor
  (\<^verbatim>\<open>get_top_n_recs\<close>, identical in \<^verbatim>\<open>notebook/generate_sample_data.py\<close>).

  Python exceptions are values of \<open>error\<close>; a function that can raise returns
  \<open>error + 'a\<close> with \<open>Inl\<close> for the exception. Similarity scores are \<open>real\<close> numbers:
  what is proved of them is about ordering and selection, not about the binary
  representation. The quotas of the sampler are truncated \<^verbatim>\<open>float64\<close> products, where a
  rounding error changes the integer: there the arithmetic is modelled with its rounding.
\<close>

datatype error = ValueError | IndexError | KeyError

text \<open>The dictionary \<^verbatim>\<open>parse_feed\<close> builds for each job element of the feed.\<close>

record job =
  job_id :: string
  title :: string
  company :: string
  city :: string
  state :: string
  country :: string
  remote :: bool
  description :: string
  education :: string
  job_type :: string
  category :: string
  experience :: string
  url :: string
  date :: string

text \<open>One entry \<^verbatim>\<open>{'id': ..., 'score': ...}\<close> of a recommendation list.\<close>

record rec =
  rec_id :: string
  rec_score :: real

section \<open>Top-N extractor\<close>

text \<open>Reading position \<open>k\<close> of a sequence: \<^verbatim>\<open>IndexError\<close> when out of range.\<close>

definition nth_err :: "'a list \<Rightarrow> nat \<Rightarrow> error + 'a" where
  "nth_err xs k = (if k < length xs then Inr (xs ! k) else Inl IndexError)"

text \<open>
  \<^verbatim>\<open>np.argsort(scores)\<close>: the positions of \<open>scores\<close> in ascending order of their values.
  The default kind of numpy fixes no order among positions of equal value; here they keep
  their ascending order, as with \<^verbatim>\<open>kind='stable'\<close>. What is proved with this sort uses
  the length of its result or rows without equal scores; the order of the emitted list
  is proved further down for every sort that numpy's contract admits.
\<close>

definition argsort :: "real list \<Rightarrow> nat list" where
  "argsort xs = sort_key (\<lambda>k. xs ! k) [0..<length xs]"

text \<open>The slice \<^verbatim>\<open>xs[:n]\<close>; a negative \<open>n\<close> counts from the end.\<close>

definition py_slice_to :: "int \<Rightarrow> 'a list \<Rightarrow> 'a list" where
  "py_slice_to n xs =
     (if 0 \<le> n then take (nat n) xs else take (length xs - nat (- n)) xs)"

text \<open>\<^verbatim>\<open>round(x, nd)\<close>: to the nearest multiple of \<open>10^-nd\<close>, a tie going to the even one.\<close>

definition round_half_even :: "real \<Rightarrow> int" where
  "round_half_even x =
     (let f = \<lfloor>x\<rfloor>; d = x - of_int f
      in if d < 1 / 2 then f else if 1 / 2 < d then f + 1
         else if even f then f else f + 1)"

definition py_round :: "real \<Rightarrow> nat \<Rightarrow> real" where
  "py_round x nd = of_int (round_half_even (x * 10 ^ nd)) / 10 ^ nd"

text \<open>A list comprehension whose element expression can raise.\<close>

fun try_map :: "('a \<Rightarrow> error + 'b) \<Rightarrow> 'a list \<Rightarrow> error + 'b list" where
  "try_map f [] = Inr []"
| "try_map f (x # xs) =
     (case f x of
        Inl e \<Rightarrow> Inl e
      | Inr y \<Rightarrow> (case try_map f xs of Inl e \<Rightarrow> Inl e | Inr ys \<Rightarrow> Inr (y # ys)))"

text \<open>
  The body of the loop of \<^verbatim>\<open>get_top_n_recs\<close> for row \<open>i\<close>:
  \<^verbatim>\<open>
  scores = sim_matrix[i].copy()
  scores[i] = -1
  top_n = np.argsort(scores)[::-1][:n]
  [{'id': df.iloc[top_n[j]]['id'], 'score': round(float(scores[top_n[j]]), 4)}
   for j in range(n)]
  \<close>
\<close>

definition top_n_idx :: "real list \<Rightarrow> nat \<Rightarrow> int \<Rightarrow> nat list" where
  "top_n_idx row i n = py_slice_to n (rev (argsort (row[i := - 1])))"

definition rec_at :: "real list \<Rightarrow> job list \<Rightarrow> nat list \<Rightarrow> nat \<Rightarrow> error + rec" where
  "rec_at scores df top_n j =
     (case nth_err top_n j of
        Inl e \<Rightarrow> Inl e
      | Inr k \<Rightarrow>
          (case nth_err df k of
             Inl e \<Rightarrow> Inl e
           | Inr jb \<Rightarrow> Inr \<lparr>rec_id = job_id jb, rec_score = py_round (scores ! k) 4\<rparr>))"

definition row_recs :: "real list list \<Rightarrow> job list \<Rightarrow> int \<Rightarrow> nat \<Rightarrow> error + rec list" where
  "row_recs sim_matrix df n i =
     (case nth_err sim_matrix i of
        Inl e \<Rightarrow> Inl e
      | Inr row \<Rightarrow>
          if length row \<le> i then Inl IndexError
          else try_map (rec_at (row[i := - 1]) df (top_n_idx row i n)) [0..<nat n])"

fun recs_loop ::
  "real list list \<Rightarrow> job list \<Rightarrow> int \<Rightarrow> nat list \<Rightarrow> (string \<rightharpoonup> rec list)
    \<Rightarrow> error + (string \<rightharpoonup> rec list)" where
  "recs_loop sim_matrix df n [] recs = Inr recs"
| "recs_loop sim_matrix df n (i # is) recs =
     (case row_recs sim_matrix df n i of
        Inl e \<Rightarrow> Inl e
      | Inr rs \<Rightarrow> recs_loop sim_matrix df n is (recs(job_id (df ! i) \<mapsto> rs)))"

definition get_top_n_recs ::
  "real list list \<Rightarrow> job list \<Rightarrow> int \<Rightarrow> error + (string \<rightharpoonup> rec list)" where
  "get_top_n_recs sim_matrix df n = recs_loop sim_matrix df n [0..<length df] Map.empty"

text \<open>
  \<^verbatim>\<open>np.argsort\<close> is called with its default kind, which promises the positions in
  ascending order of their values and no order among positions of equal value. The
  extractor with the sort as a parameter \<open>srt\<close>, and what numpy promises of it.
\<close>

definition is_argsort :: "(real list \<Rightarrow> nat list) \<Rightarrow> bool" where
  "is_argsort srt \<longleftrightarrow>
     (\<forall>xs. length (srt xs) = length xs \<and> set (srt xs) = {0..<length xs} \<and>
           sorted (map (\<lambda>k. xs ! k) (srt xs)))"

definition top_n_idx_by :: "(real list \<Rightarrow> nat list) \<Rightarrow> real list \<Rightarrow> nat \<Rightarrow> int \<Rightarrow> nat list" where
  "top_n_idx_by srt row i n = py_slice_to n (rev (srt (row[i := - 1])))"

definition row_recs_by ::
  "(real list \<Rightarrow> nat list) \<Rightarrow> real list list \<Rightarrow> job list \<Rightarrow> int \<Rightarrow> nat \<Rightarrow> error + rec list" where
  "row_recs_by srt sim_matrix df n i =
     (case nth_err sim_matrix i of
        Inl e \<Rightarrow> Inl e
      | Inr row \<Rightarrow>
          if length row \<le> i then Inl IndexError
          else try_map (rec_at (row[i := - 1]) df (top_n_idx_by srt row i n)) [0..<nat n])"

fun recs_loop_by ::
  "(real list \<Rightarrow> nat list) \<Rightarrow> real list list \<Rightarrow> job list \<Rightarrow> int \<Rightarrow> nat list
    \<Rightarrow> (string \<rightharpoonup> rec list) \<Rightarrow> error + (string \<rightharpoonup> rec list)" where
  "recs_loop_by srt sim_matrix df n [] recs = Inr recs"
| "recs_loop_by srt sim_matrix df n (i # is) recs =
     (case row_recs_by srt sim_matrix df n i of
        Inl e \<Rightarrow> Inl e
      | Inr rs \<Rightarrow> recs_loop_by srt sim_matrix df n is (recs(job_id (df ! i) \<mapsto> rs)))"

definition get_top_n_recs_by ::
  "(real list \<Rightarrow> nat list) \<Rightarrow> real list list \<Rightarrow> job list \<Rightarrow> int
    \<Rightarrow> error + (string \<rightharpoonup> rec list)" where
  "get_top_n_recs_by srt sim_matrix df n =
     recs_loop_by srt sim_matrix df n [0..<length df] Map.empty"

text \<open>A similarity matrix over the sampled set: one row per item, one column per item.\<close>

definition square :: "real list list \<Rightarrow> job list \<Rightarrow> bool" where
  "square sim_matrix df \<longleftrightarrow>
     length sim_matrix = length df \<and> list_all (\<lambda>row. length row = length df) sim_matrix"

text \<open>A job with the given id, title, city, state, country and category; the other fields empty.\<close>

definition mk_job :: "string \<Rightarrow> string \<Rightarrow> string \<Rightarrow> string \<Rightarrow> string \<Rightarrow> string \<Rightarrow> job" where
  "mk_job i t c s k g =
     \<lparr>job_id = i, title = t, company = [], city = c, state = s, country = k,
      remote = False, description = [], education = [], job_type = [],
      category = g, experience = [], url = [], date = []\<rparr>"

text \<open>The entry emitted for the neighbour at position \<open>k\<close> of the sampled set.\<close>

definition emit :: "real list \<Rightarrow> job list \<Rightarrow> nat \<Rightarrow> rec" where
  "emit scores df k = \<lparr>rec_id = job_id (df ! k), rec_score = py_round (scores ! k) 4\<rparr>"

subsection \<open>Sample inputs\<close>

definition demo_jobs :: "job list" where
  "demo_jobs =
     [mk_job ''a'' ''Engineer A'' ''Austin'' ''TX'' ''US'' ''Eng'',
      mk_job ''b'' ''Engineer B'' ''Austin'' ''TX'' ''US'' ''Eng'',
      mk_job ''c'' ''Engineer C'' ''Dallas'' ''TX'' ''US'' ''Eng'',
      mk_job ''d'' ''Nurse'' ''Boston'' ''MA'' ''US'' ''Health'']"

definition tie_matrix :: "real list list" where
  "tie_matrix =
     [[1, 0.5, 0.5, 0.5], [0.5, 1, 0.5, 0.5], [0.5, 0.5, 1, 0.5], [0.5, 0.5, 0.5, 1]]"

definition three_matrix :: "real list list" where
  "three_matrix = [[1, 0.8, 0.2], [0.8, 1, 0.5], [0.2, 0.5, 1]]"

definition tied_jobs :: "job list" where
  "tied_jobs =
     [mk_job ''a'' ''Driver'' ''Austin'' ''TX'' ''US'' ''Transport'',
      mk_job ''b'' ''Driver'' ''Dallas'' ''TX'' ''US'' ''Transport'',
      mk_job ''c'' ''Driver'' ''Boston'' ''MA'' ''US'' ''Transport'',
      mk_job ''d'' ''Driver'' ''Salem'' ''OR'' ''US'' ''Transport'',
      mk_job ''e'' ''Driver'' ''Miami'' ''FL'' ''US'' ''Transport'']"

definition tied_matrix :: "real list list" where
  "tied_matrix =
     [[1, 1, 1, 1, 1], [1, 1, 1, 1, 1], [1, 1, 1, 1, 1], [1, 1, 1, 1, 1], [1, 1, 1, 1, 1]]"

section \<open>Default filling and per-feature similarity\<close>

text \<open>\<^verbatim>\<open>df[col].replace('', default)\<close> on one value of the column.\<close>

definition replace_empty :: "string \<Rightarrow> string \<Rightarrow> string" where
  "replace_empty dflt s = (if s = [] then dflt else s)"

text \<open>The block \<^verbatim>\<open># Fill missing\<close> of \<^verbatim>\<open>main\<close>, on one row of the frame.\<close>

definition fill_missing :: "job \<Rightarrow> job" where
  "fill_missing j =
     j\<lparr>category := replace_empty ''Other'' (category j),
       experience := replace_empty ''Not Specified'' (experience j),
       education := replace_empty ''Not Specified'' (education j),
       job_type := replace_empty ''Not Specified'' (job_type j),
       city := replace_empty ''Unknown'' (city j),
       state := replace_empty ''Unknown'' (state j),
       country := replace_empty ''Unknown'' (country j)\<rparr>"

text \<open>
  \<^verbatim>\<open>
  loc_sim = np.where(cities[:, None] == cities[None, :], 1.0,
            np.where(states[:, None] == states[None, :], 0.5,
            np.where(countries[:, None] == countries[None, :], 0.2, 0.0)))
  \<close>
  Entry \<open>i, j\<close> compares row \<open>i\<close> of the frame with row \<open>j\<close>.
\<close>

definition loc_sim :: "job list \<Rightarrow> real list list" where
  "loc_sim df =
     map (\<lambda>a. map (\<lambda>b. if city a = city b then 1
                        else if state a = state b then 0.5
                        else if country a = country b then 0.2 else 0) df) df"

section \<open>Weighted composition\<close>

text \<open>The dictionary literal \<^verbatim>\<open>WEIGHTS\<close> of \<^verbatim>\<open>main\<close>, and reading a key of a dictionary.\<close>

definition WEIGHTS :: "(string \<times> real) list" where
  "WEIGHTS =
     [(''description'', 0.35), (''title'', 0.25), (''category'', 0.15),
      (''location'', 0.10), (''job_type'', 0.08), (''experience'', 0.07)]"

definition dict_get :: "(string \<times> 'v) list \<Rightarrow> string \<Rightarrow> error + 'v" where
  "dict_get d k = (case map_of d k of None \<Rightarrow> Inl KeyError | Some v \<Rightarrow> Inr v)"

text \<open>
  One entry of \<^verbatim>\<open>weighted_sim\<close>, from the entries of the six feature matrices at the
  same position. The weights are read from the dictionary \<open>W\<close> key by key; nothing else
  is done with them.
\<close>

definition weighted_sim_entry ::
  "(string \<times> real) list \<Rightarrow> real \<Rightarrow> real \<Rightarrow> real \<Rightarrow> real \<Rightarrow> real \<Rightarrow> real \<Rightarrow> error + real" where
  "weighted_sim_entry W d t c l j e =
     (case dict_get W ''description'' of Inl x \<Rightarrow> Inl x | Inr wd \<Rightarrow>
      case dict_get W ''title'' of Inl x \<Rightarrow> Inl x | Inr wt \<Rightarrow>
      case dict_get W ''category'' of Inl x \<Rightarrow> Inl x | Inr wc \<Rightarrow>
      case dict_get W ''location'' of Inl x \<Rightarrow> Inl x | Inr wl \<Rightarrow>
      case dict_get W ''job_type'' of Inl x \<Rightarrow> Inl x | Inr wj \<Rightarrow>
      case dict_get W ''experience'' of Inl x \<Rightarrow> Inl x | Inr we \<Rightarrow>
        Inr (wd * d + wt * t + wc * c + wl * l + wj * j + we * e))"

definition weight_sum :: "(string \<times> real) list \<Rightarrow> real" where
  "weight_sum W = sum_list (map snd W)"

definition no_city_jobs :: "job list" where
  "no_city_jobs =
     [mk_job ''p'' ''Welder'' [] ''TX'' ''US'' ''Trades'',
      mk_job ''q'' ''Baker'' [] ''Bayern'' ''DE'' ''Food'',
      mk_job ''r'' ''Pilot'' ''Lyon'' ''Rhone'' ''FR'' ''Travel'']"

section \<open>Stratified sampler\<close>

text \<open>
  \<^verbatim>\<open>df.drop_duplicates(subset=['title', 'company', 'city'])\<close>: a row is dropped when an
  earlier row has the same three fields; \<open>seen\<close> holds the keys met so far.
\<close>

fun drop_dups :: "(string \<times> string \<times> string) list \<Rightarrow> job list \<Rightarrow> job list" where
  "drop_dups seen [] = []"
| "drop_dups seen (j # js) =
     (if (title j, company j, city j) \<in> set seen then drop_dups seen js
      else j # drop_dups ((title j, company j, city j) # seen) js)"

definition drop_duplicates :: "job list \<Rightarrow> job list" where
  "drop_duplicates df = drop_dups [] df"

text \<open>
  \<^verbatim>\<open>Series.value_counts()\<close>: each distinct value with the number of its occurrences, the
  larger counts first; values of equal count stay in the order of their first occurrence.
\<close>

definition value_counts :: "string list \<Rightarrow> (string \<times> nat) list" where
  "value_counts xs =
     sort_key (\<lambda>(c, k). - int k) (map (\<lambda>c. (c, count_list xs c)) (rev (remdups (rev xs))))"

text \<open>\<^verbatim>\<open>int(x)\<close> on a float: truncation towards zero.\<close>

definition py_int :: "real \<Rightarrow> int" where
  "py_int x = (if 0 \<le> x then \<lfloor>x\<rfloor> else \<lceil>x\<rceil>)"

text \<open>
  Arithmetic on \<^verbatim>\<open>float64\<close>: the exact result rounded to the nearest number of 53
  significant bits, a tie going to the even one. The exponent is not bounded: the
  quantities below stay far inside the range of \<^verbatim>\<open>float64\<close>.
\<close>

definition fl :: "real \<Rightarrow> real" where
  "fl x =
     (if x = 0 then 0
      else (let e = \<lfloor>log 2 \<bar>x\<bar>\<rfloor> - 52
            in of_int (round_half_even (x / 2 powi e)) * 2 powi e))"

text \<open>
  One value of \<^verbatim>\<open>cat_counts / cat_counts.sum() * n\<close>: the count and the sum are
  converted to \<^verbatim>\<open>float64\<close> and divided, and the quotient is multiplied by \<open>n\<close>,
  converted as well; each operation rounds.
\<close>

definition scaled_share :: "nat \<Rightarrow> nat \<Rightarrow> int \<Rightarrow> real" where
  "scaled_share k count_sum n = fl (fl (fl (real k) / fl (real count_sum)) * fl (of_int n))"

text \<open>
  \<^verbatim>\<open>
  cat_proportions = cat_counts / cat_counts.sum()
  cat_samples = (cat_proportions * n).apply(lambda x: max(int(x), min_per_group))
  \<close>
\<close>

definition initial_quotas :: "(string \<times> nat) list \<Rightarrow> int \<Rightarrow> int \<Rightarrow> (string \<times> int) list" where
  "initial_quotas cat_counts n min_per_group =
     map (\<lambda>(c, k). (c, max (py_int (scaled_share k (sum_list (map snd cat_counts)) n))
                          min_per_group)) cat_counts"

text \<open>\<^verbatim>\<open>cat_samples.sum()\<close>.\<close>

definition total :: "(string \<times> int) list \<Rightarrow> int" where
  "total cs = sum_list (map snd cs)"

text \<open>
  \<^verbatim>\<open>cat_samples.idxmax()\<close>: the label of the first largest value; \<^verbatim>\<open>ValueError\<close> on an
  empty series.
\<close>

fun argmax_from :: "string \<Rightarrow> int \<Rightarrow> (string \<times> int) list \<Rightarrow> string" where
  "argmax_from best v [] = best"
| "argmax_from best v ((c, q) # cs) =
     (if v < q then argmax_from c q cs else argmax_from best v cs)"

fun idxmax :: "(string \<times> int) list \<Rightarrow> error + string" where
  "idxmax [] = Inl ValueError"
| "idxmax ((c, q) # cs) = Inr (argmax_from c q cs)"

text \<open>\<^verbatim>\<open>cat_samples[label] += d\<close>, on the entry of that label.\<close>

fun adjust :: "string \<Rightarrow> int \<Rightarrow> (string \<times> int) list \<Rightarrow> (string \<times> int) list" where
  "adjust label d [] = []"
| "adjust label d ((c, q) # cs) =
     (if c = label then (c, q + d) # cs else (c, q) # adjust label d cs)"

lemma argmax_from_in: "argmax_from best v cs \<in> insert best (fst ` set cs)"
  by (induction best v cs rule: argmax_from.induct) auto

lemma idxmax_in: "idxmax cs = Inr label \<Longrightarrow> label \<in> fst ` set cs"
  using argmax_from_in by (cases cs) fastforce+

lemma total_adjust: "label \<in> fst ` set cs \<Longrightarrow> total (adjust label d cs) = total cs + d"
proof (induction cs)
  case Nil
  then show ?case by simp
next
  case (Cons a cs)
  obtain c q where a: "a = (c, q)" by (cases a)
  show ?case
  proof (cases "c = label")
    case True
    with a show ?thesis by (simp add: total_def)
  next
    case False
    with Cons.prems a have "label \<in> fst ` set cs" by auto
    from Cons.IH [OF this] False a show ?thesis by (simp add: total_def)
  qed
qed

lemma total_adjust_idxmax:
  "idxmax cs = Inr label \<Longrightarrow> total (adjust label d cs) = total cs + d"
  by (rule total_adjust) (rule idxmax_in)

text \<open>
  \<^verbatim>\<open>
  while cat_samples.sum() > n:
      largest = cat_samples.idxmax()
      cat_samples[largest] -= 1
  \<close>
\<close>

function shrink :: "(string \<times> int) list \<Rightarrow> int \<Rightarrow> error + (string \<times> int) list" where
  "shrink cs n =
     (if n < total cs
      then (case idxmax cs of
              Inl e \<Rightarrow> Inl e
            | Inr largest \<Rightarrow> shrink (adjust largest (- 1) cs) n)
      else Inr cs)"
  by pat_completeness auto
termination
  by (relation "measure (\<lambda>(cs, n). nat (total cs - n))")
    (simp_all add: total_adjust_idxmax)

text \<open>
  \<^verbatim>\<open>
  while cat_samples.sum() < n:
      largest = cat_samples.idxmax()
      cat_samples[largest] += 1
  \<close>
\<close>

function grow :: "(string \<times> int) list \<Rightarrow> int \<Rightarrow> error + (string \<times> int) list" where
  "grow cs n =
     (if total cs < n
      then (case idxmax cs of
              Inl e \<Rightarrow> Inl e
            | Inr largest \<Rightarrow> grow (adjust largest 1 cs) n)
      else Inr cs)"
  by pat_completeness auto
termination
  by (relation "measure (\<lambda>(cs, n). nat (n - total cs))")
    (simp_all add: total_adjust_idxmax)

declare shrink.simps [simp del] grow.simps [simp del]

text \<open>
  The deduplicated frame with its empty categories renamed, and the quotas after both loops.
\<close>

definition dedup :: "job list \<Rightarrow> job list" where
  "dedup df =
     map (\<lambda>j. j\<lparr>category := replace_empty ''Other'' (category j)\<rparr>) (drop_duplicates df)"

definition final_quotas :: "job list \<Rightarrow> int \<Rightarrow> int \<Rightarrow> error + (string \<times> int) list" where
  "final_quotas df n min_per_group =
     (case shrink (initial_quotas (value_counts (map category (dedup df))) n min_per_group) n of
        Inl e \<Rightarrow> Inl e
      | Inr cs \<Rightarrow> grow cs n)"

text \<open>
  \<^verbatim>\<open>cat_df.sample(n=k, random_state=42)\<close>: \<open>k\<close> rows of the frame, drawn without replacement
  by a seeded generator. Which rows are drawn is the parameter \<open>smp\<close>; a negative \<open>k\<close> and
  a \<open>k\<close> above the number of rows raise \<^verbatim>\<open>ValueError\<close>.
\<close>

definition sample_rows ::
  "(nat \<Rightarrow> job list \<Rightarrow> job list) \<Rightarrow> int \<Rightarrow> job list \<Rightarrow> error + job list" where
  "sample_rows smp k rows =
     (if k < 0 \<or> int (length rows) < k then Inl ValueError else Inr (smp (nat k) rows))"

text \<open>
  The body of the loop over \<^verbatim>\<open>cat_samples.items()\<close>:
  \<^verbatim>\<open>
  cat_df = df_dedup[df_dedup['category'] == cat]
  sample_n = min(count, len(cat_df))
  sampled.append(cat_df.sample(n=sample_n, random_state=42))
  \<close>
\<close>

definition cat_df :: "job list \<Rightarrow> string \<Rightarrow> job list" where
  "cat_df df_dedup cat = filter (\<lambda>j. category j = cat) df_dedup"

definition draw ::
  "(nat \<Rightarrow> job list \<Rightarrow> job list) \<Rightarrow> job list \<Rightarrow> string \<times> int \<Rightarrow> error + job list" where
  "draw smp df_dedup = (\<lambda>(cat, count).
     sample_rows smp (min count (int (length (cat_df df_dedup cat)))) (cat_df df_dedup cat))"

text \<open>\<^verbatim>\<open>pd.concat(sampled)\<close>: \<^verbatim>\<open>ValueError\<close> when there is no frame to concatenate.\<close>

definition pd_concat :: "job list list \<Rightarrow> error + job list" where
  "pd_concat sampled = (if sampled = [] then Inl ValueError else Inr (concat sampled))"

text \<open>
  \<^verbatim>\<open>stratified_sample(df, n, min_per_group)\<close> on a frame that has the columns of
  \<^verbatim>\<open>parse_feed\<close>, given by its rows.
\<close>

definition stratified_sample ::
  "(nat \<Rightarrow> job list \<Rightarrow> job list) \<Rightarrow> job list \<Rightarrow> int \<Rightarrow> int \<Rightarrow> error + job list" where
  "stratified_sample smp df n min_per_group =
     (case final_quotas df n min_per_group of
        Inl e \<Rightarrow> Inl e
      | Inr cat_samples \<Rightarrow>
          (case try_map (draw smp (dedup df)) cat_samples of
             Inl e \<Rightarrow> Inl e
           | Inr sampled \<Rightarrow> pd_concat sampled))"

text \<open>
  The frame \<^verbatim>\<open>main\<close> passes to the sampler is \<^verbatim>\<open>pd.DataFrame(all_jobs)\<close>, whose columns are
  the keys of the dictionaries: the frame of an empty list has no column at all, while a
  frame with the columns of \<^verbatim>\<open>parse_feed\<close> is given by its rows.
\<close>

datatype frame = NoColumns | Columns "job list"

definition pd_DataFrame :: "job list \<Rightarrow> frame" where
  "pd_DataFrame jobs = (if jobs = [] then NoColumns else Columns jobs)"

fun frame_rows :: "frame \<Rightarrow> job list" where
  "frame_rows NoColumns = []"
| "frame_rows (Columns rows) = rows"

text \<open>
  \<^verbatim>\<open>stratified_sample\<close> on a frame. Without columns, \<^verbatim>\<open>drop_duplicates\<close> hands the empty
  frame back and \<^verbatim>\<open>df_dedup['category']\<close> raises \<^verbatim>\<open>KeyError\<close>; with the columns the
  sampler runs on the rows.
\<close>

fun stratified_sample_frame ::
  "(nat \<Rightarrow> job list \<Rightarrow> job list) \<Rightarrow> frame \<Rightarrow> int \<Rightarrow> int \<Rightarrow> error + job list" where
  "stratified_sample_frame smp NoColumns n min_per_group = Inl KeyError"
| "stratified_sample_frame smp (Columns rows) n min_per_group =
     stratified_sample smp rows n min_per_group"

text \<open>A sampling function draws the number of rows it is asked for.\<close>

definition draws_exactly :: "(nat \<Rightarrow> job list \<Rightarrow> job list) \<Rightarrow> bool" where
  "draws_exactly smp \<longleftrightarrow> (\<forall>k rows. k \<le> length rows \<longrightarrow> length (smp k rows) = k)"

text \<open>
  Quotas none of which is negative, and the number of rows drawn for a category: the
  smaller of its quota and the number of its records.
\<close>

definition nonneg :: "(string \<times> int) list \<Rightarrow> bool" where
  "nonneg cs \<longleftrightarrow> list_all (\<lambda>p. 0 \<le> snd p) cs"

definition drawn :: "job list \<Rightarrow> string \<times> int \<Rightarrow> nat" where
  "drawn df_dedup p = nat (min (snd p) (int (length (cat_df df_dedup (fst p)))))"

section \<open>Properties of the top-N extractor\<close>

lemma try_map_length: "try_map f xs = Inr ys \<Longrightarrow> length ys = length xs"
  by (induction xs arbitrary: ys) (auto split: sum.splits)

lemma try_map_eq_map:
  "(\<And>x. x \<in> set xs \<Longrightarrow> f x = Inr (g x)) \<Longrightarrow> try_map f xs = Inr (map g xs)"
  by (induction xs) auto

lemma try_map_IndexError:
  assumes "\<And>x e. x \<in> set xs \<Longrightarrow> f x = Inl e \<Longrightarrow> e = IndexError"
    and "\<exists>x\<in>set xs. isl (f x)"
  shows "try_map f xs = Inl IndexError"
  using assms
proof (induction xs)
  case Nil
  then show ?case by simp
next
  case (Cons x xs)
  show ?case
  proof (cases "f x")
    case (Inl e)
    with Cons.prems(1) [of x e] show ?thesis by simp
  next
    case (Inr y)
    with Cons.prems(2) have "\<exists>x\<in>set xs. isl (f x)" by auto
    with Cons.IH Cons.prems(1) have "try_map f xs = Inl IndexError" by auto
    with Inr show ?thesis by simp
  qed
qed

lemma rec_at_error: "rec_at scores df top_n j = Inl e \<Longrightarrow> e = IndexError"
  by (auto simp: rec_at_def nth_err_def split: if_splits sum.splits)

lemma set_argsort: "set (argsort xs) = {0..<length xs}"
  by (simp add: argsort_def)

lemma length_argsort: "length (argsort xs) = length xs"
  by (simp add: argsort_def)

lemma distinct_argsort: "distinct (argsort xs)"
  by (simp add: argsort_def)

lemma insort_key_lex:
  assumes "sorted_wrt (\<lambda>a b. f a < f b \<or> (f a = f b \<and> R a b)) ys"
    and "\<forall>y\<in>set ys. R x y"
  shows "sorted_wrt (\<lambda>a b. f a < f b \<or> (f a = f b \<and> R a b)) (insort_key f x ys)"
  using assms
proof (induction ys)
  case Nil
  then show ?case by simp
next
  case (Cons y ys)
  then show ?case
    by (auto simp: set_insort_key) 
qed

lemma sort_key_lex:
  "sorted_wrt R xs \<Longrightarrow>
   sorted_wrt (\<lambda>a b. f a < f b \<or> (f a = f b \<and> R a b)) (sort_key f xs)"
proof (induction xs)
  case Nil
  then show ?case by simp
next
  case (Cons x xs)
  then show ?case
    by (simp add: insort_key_lex)
qed

lemma argsort_lex:
  "sorted_wrt (\<lambda>a b. xs ! a < xs ! b \<or> (xs ! a = xs ! b \<and> a < b)) (argsort xs)"
  unfolding argsort_def by (rule sort_key_lex) simp

lemma length_top_n_idx:
  "0 \<le> n \<Longrightarrow> length (top_n_idx row i n) = min (nat n) (length row)"
  by (simp add: top_n_idx_def py_slice_to_def length_argsort)

lemma set_top_n_idx: "set (top_n_idx row i n) \<subseteq> {0..<length row}"
proof -
  have "set (top_n_idx row i n) \<subseteq> set (rev (argsort (row[i := - 1])))"
    unfolding top_n_idx_def py_slice_to_def by (auto dest: in_set_takeD)
  then show ?thesis by (simp add: set_argsort)
qed

lemma distinct_top_n_idx: "distinct (top_n_idx row i n)"
  by (simp add: top_n_idx_def py_slice_to_def distinct_argsort)

lemma row_recs_Inr:
  assumes sq: "square sim_matrix df" and i: "i < length df"
    and n: "0 \<le> n" "n \<le> int (length df)"
  shows "row_recs sim_matrix df n i =
           Inr (map (emit ((sim_matrix ! i)[i := - 1]) df) (top_n_idx (sim_matrix ! i) i n))"
proof -
  let ?row = "sim_matrix ! i"
  let ?T = "top_n_idx ?row i n"
  from sq i have len: "length ?row = length df" and li: "i < length sim_matrix"
    by (auto simp: square_def list_all_length)
  have lT: "length ?T = nat n"
    using n len by (simp add: length_top_n_idx)
  have "rec_at (?row[i := - 1]) df ?T j = Inr (emit (?row[i := - 1]) df (?T ! j))"
    if "j \<in> set [0..<nat n]" for j
  proof -
    from that lT have j: "j < length ?T" by simp
    then have "?T ! j \<in> set ?T" by simp
    with set_top_n_idx [of ?row i n] len have "?T ! j < length df" by auto
    with j show ?thesis by (simp add: rec_at_def nth_err_def emit_def)
  qed
  then have "try_map (rec_at (?row[i := - 1]) df ?T) [0..<nat n] =
      Inr (map (\<lambda>j. emit (?row[i := - 1]) df (?T ! j)) [0..<nat n])"
    by (rule try_map_eq_map)
  moreover have "map (\<lambda>j. emit (?row[i := - 1]) df (?T ! j)) [0..<nat n] =
      map (emit (?row[i := - 1]) df) ?T"
    using lT by (simp add: list_eq_iff_nth_eq)
  ultimately show ?thesis
    using li len i by (simp add: row_recs_def nth_err_def)
qed

lemma row_recs_short:
  assumes sq: "square sim_matrix df" and i: "i < length df"
    and n: "int (length df) < n"
  shows "row_recs sim_matrix df n i = Inl IndexError"
proof -
  let ?row = "sim_matrix ! i"
  let ?T = "top_n_idx ?row i n"
  from sq i have len: "length ?row = length df" and li: "i < length sim_matrix"
    by (auto simp: square_def list_all_length)
  have lT: "length ?T = length df"
    using n len by (simp add: length_top_n_idx)
  have "rec_at (?row[i := - 1]) df ?T (length df) = Inl IndexError"
    using lT by (simp add: rec_at_def nth_err_def)
  moreover have "length df \<in> set [0..<nat n]"
    using n by simp
  ultimately have "\<exists>j\<in>set [0..<nat n]. isl (rec_at (?row[i := - 1]) df ?T j)"
    by (metis sum.disc(1))
  then have "try_map (rec_at (?row[i := - 1]) df ?T) [0..<nat n] = Inl IndexError"
    by (intro try_map_IndexError) (auto dest: rec_at_error)
  then show ?thesis
    using li len i by (simp add: row_recs_def nth_err_def)
qed

lemma row_recs_length: "row_recs sim_matrix df n i = Inr rs \<Longrightarrow> length rs = nat n"
  by (auto simp: row_recs_def split: sum.splits if_splits dest: try_map_length)

lemma recs_loop_other:
  "recs_loop sim_matrix df n is recs = Inr m \<Longrightarrow> k \<notin> (\<lambda>i. job_id (df ! i)) ` set is \<Longrightarrow>
   m k = recs k"
  by (induction "is" arbitrary: recs) (auto split: sum.splits)

lemma recs_loop_Inr:
  "recs_loop sim_matrix df n is recs = Inr m \<Longrightarrow> k \<in> (\<lambda>i. job_id (df ! i)) ` set is \<Longrightarrow>
   \<exists>i' rs. i' \<in> set is \<and> job_id (df ! i') = k \<and>
       row_recs sim_matrix df n i' = Inr rs \<and> m k = Some rs"
proof (induction "is" arbitrary: recs)
  case Nil
  then show ?case by simp
next
  case (Cons a "is")
  from Cons.prems(1) obtain rs where
    a: "row_recs sim_matrix df n a = Inr rs" and
    rest: "recs_loop sim_matrix df n is (recs(job_id (df ! a) \<mapsto> rs)) = Inr m"
    by (auto split: sum.splits)
  show ?case
  proof (cases "k \<in> (\<lambda>i. job_id (df ! i)) ` set is")
    case True
    from Cons.IH [OF rest True] show ?thesis by auto
  next
    case False
    with Cons.prems(2) have ia: "k = job_id (df ! a)" by auto
    from recs_loop_other [OF rest False] ia have "m k = Some rs" by simp
    with a ia show ?thesis by auto
  qed
qed

lemma recs_loop_total:
  "(\<And>i. i \<in> set is \<Longrightarrow> \<exists>rs. row_recs sim_matrix df n i = Inr rs) \<Longrightarrow>
   \<exists>m. recs_loop sim_matrix df n is recs = Inr m"
proof (induction "is" arbitrary: recs)
  case Nil
  then show ?case by simp
next
  case (Cons a "is")
  from Cons.prems [of a] obtain rs where "row_recs sim_matrix df n a = Inr rs" by auto
  moreover have "\<exists>m. recs_loop sim_matrix df n is (recs(job_id (df ! a) \<mapsto> rs)) = Inr m"
    by (rule Cons.IH) (simp add: Cons.prems)
  ultimately show ?case by simp
qed

lemma get_top_n_recs_entry:
  assumes "get_top_n_recs sim_matrix df n = Inr m" and "distinct (map job_id df)"
    and "i < length df"
  shows "\<exists>rs. row_recs sim_matrix df n i = Inr rs \<and> m (job_id (df ! i)) = Some rs"
proof -
  from assms(3) have "job_id (df ! i) \<in> (\<lambda>i. job_id (df ! i)) ` set [0..<length df]"
    by simp
  moreover from assms(1) have "recs_loop sim_matrix df n [0..<length df] Map.empty = Inr m"
    by (simp add: get_top_n_recs_def)
  ultimately have "\<exists>i' rs. i' \<in> set [0..<length df] \<and> job_id (df ! i') = job_id (df ! i) \<and>
       row_recs sim_matrix df n i' = Inr rs \<and> m (job_id (df ! i)) = Some rs"
    by (rule recs_loop_Inr [rotated])
  then obtain i' rs where
    i': "i' < length df" "job_id (df ! i') = job_id (df ! i)"
      "row_recs sim_matrix df n i' = Inr rs" "m (job_id (df ! i)) = Some rs"
    by auto
  from i'(1,2) assms(3) have "map job_id df ! i' = map job_id df ! i" by simp
  with assms(2,3) i'(1) have "i' = i"
    using nth_eq_iff_index_eq [of "map job_id df" i' i] by simp
  with i' show ?thesis by simp
qed

lemma try_map_nth:
  "try_map f xs = Inr ys \<Longrightarrow> j < length xs \<Longrightarrow> f (xs ! j) = Inr (ys ! j)"
proof (induction xs arbitrary: ys j)
  case Nil
  then show ?case by simp
next
  case (Cons x xs)
  then show ?case by (cases j) (auto split: sum.splits)
qed

lemma row_recs_InrD:
  assumes "row_recs sim_matrix df n i = Inr rs" and n: "0 \<le> n"
  shows "\<exists>row. nth_err sim_matrix i = Inr row \<and> i < length row \<and>
           rs = map (emit (row[i := - 1]) df) (top_n_idx row i n) \<and>
           length (top_n_idx row i n) = nat n \<and>
           set (top_n_idx row i n) \<subseteq> {0..<length df}"
proof -
  from assms(1) obtain row where
    row: "nth_err sim_matrix i = Inr row" "i < length row" and
    tm: "try_map (rec_at (row[i := - 1]) df (top_n_idx row i n)) [0..<nat n] = Inr rs"
    by (auto simp: row_recs_def split: sum.splits if_splits)
  let ?T = "top_n_idx row i n"
  let ?s = "row[i := - 1]"
  from tm have lrs: "length rs = nat n" by (auto dest: try_map_length)
  have at: "rec_at ?s df ?T j = Inr (rs ! j)" if "j < nat n" for j
    using try_map_nth [OF tm, of j] that by simp
  have inT: "j < length ?T \<and> ?T ! j < length df \<and> rs ! j = emit ?s df (?T ! j)"
    if "j < nat n" for j
    using at [OF that]
    by (auto simp: rec_at_def nth_err_def emit_def split: if_splits)
  have "nat n \<le> length ?T"
  proof (cases "nat n")
    case 0
    then show ?thesis by simp
  next
    case (Suc k)
    then have "k < nat n" by simp
    from inT [OF this] Suc show ?thesis by simp
  qed
  moreover have "length ?T \<le> nat n"
    using n by (simp add: length_top_n_idx)
  ultimately have lT: "length ?T = nat n" by simp
  have "rs = map (emit ?s df) ?T"
    using lrs lT inT by (simp add: list_eq_iff_nth_eq)
  moreover have "set ?T \<subseteq> {0..<length df}"
  proof
    fix k assume "k \<in> set ?T"
    then obtain j where "j < length ?T" "?T ! j = k" by (auto simp: in_set_conv_nth)
    with lT inT [of j] show "k \<in> {0..<length df}" by auto
  qed
  ultimately show ?thesis using row lT by blast
qed

lemma round_half_even_bounds: "\<lfloor>x\<rfloor> \<le> round_half_even x \<and> round_half_even x \<le> \<lfloor>x\<rfloor> + 1"
  by (simp add: round_half_even_def Let_def)

lemma round_half_even_mono:
  assumes "x \<le> y"
  shows "round_half_even x \<le> round_half_even y"
proof (cases "\<lfloor>x\<rfloor> = \<lfloor>y\<rfloor>")
  case True
  with assms have "x - of_int \<lfloor>x\<rfloor> \<le> y - of_int \<lfloor>y\<rfloor>" by simp
  with True show ?thesis
    by (auto simp: round_half_even_def Let_def)
next
  case False
  with assms have "\<lfloor>x\<rfloor> + 1 \<le> \<lfloor>y\<rfloor>"
    using floor_mono [of x y] by linarith
  with round_half_even_bounds [of x] round_half_even_bounds [of y] show ?thesis
    by linarith
qed

lemma py_round_mono: "x \<le> y \<Longrightarrow> py_round x nd \<le> py_round y nd"
  by (simp add: py_round_def divide_right_mono round_half_even_mono mult_right_mono)

lemma py_round_decimals: "py_round x nd * 10 ^ nd \<in> \<int>"
  by (simp add: py_round_def)

text \<open>
  The sentinel at work: when every other score of the row exceeds \<open>-1\<close>, position \<open>i\<close>
  is the first of the ascending order, hence the last after the reversal, and it is cut
  off by \<^verbatim>\<open>[:n]\<close> as long as the row has more than \<open>n\<close> entries.
\<close>

lemma argsort_hd_sentinel:
  assumes i: "i < length row" and gt: "\<forall>k<length row. k \<noteq> i \<longrightarrow> - 1 < row ! k"
  shows "\<exists>ks. argsort (row[i := - 1]) = i # ks \<and> i \<notin> set ks"
proof -
  let ?s = "row[i := - 1]"
  let ?A = "argsort ?s"
  from i have "?A \<noteq> []"
    using length_argsort [of ?s] by auto
  then obtain a ks where A: "?A = a # ks" by (cases ?A) auto
  have dist: "a \<notin> set ks" using distinct_argsort [of ?s] A by simp
  have "a = i"
  proof (rule ccontr)
    assume ne: "a \<noteq> i"
    from i have "i \<in> set ?A" by (simp add: set_argsort)
    with A ne have iks: "i \<in> set ks" by simp
    have "a \<in> set ?A" using A by simp
    then have alen: "a < length row" by (simp add: set_argsort)
    from argsort_lex [of ?s] A iks
    have "?s ! a < ?s ! i \<or> (?s ! a = ?s ! i \<and> a < i)" by auto
    moreover from i have "?s ! i = - 1" by simp
    moreover from ne alen gt have "- 1 < ?s ! a" by simp
    ultimately show False by auto
  qed
  with A dist show ?thesis by simp
qed

lemma self_not_in_top_n:
  assumes i: "i < length row" and n: "0 \<le> n" "nat n < length row"
    and gt: "\<forall>k<length row. k \<noteq> i \<longrightarrow> - 1 < row ! k"
  shows "i \<notin> set (top_n_idx row i n)"
proof -
  from argsort_hd_sentinel [OF i gt] obtain ks where
    A: "argsort (row[i := - 1]) = i # ks" and iks: "i \<notin> set ks" by blast
  from A have "length ks = length row - 1"
    using length_argsort [of "row[i := - 1]"] by simp
  with n have "nat n \<le> length (rev ks)" by simp
  then have "take (nat n) (rev ks @ [i]) = take (nat n) (rev ks)" by simp
  with A n have "top_n_idx row i n = take (nat n) (rev ks)"
    by (simp add: top_n_idx_def py_slice_to_def)
  with iks show ?thesis by (auto dest: in_set_takeD)
qed

lemmas extractor_defs =
  get_top_n_recs_def row_recs_def nth_err_def top_n_idx_def argsort_def py_slice_to_def
  rec_at_def mk_job_def py_round_def round_half_even_def Let_def

subsection \<open>The extractor over any sort that numpy's contract admits\<close>

lemma is_argsort_argsort: "is_argsort argsort"
  by (simp add: is_argsort_def argsort_def)

lemma top_n_idx_by_argsort: "top_n_idx_by argsort row i n = top_n_idx row i n"
  by (simp add: top_n_idx_by_def top_n_idx_def)

lemma row_recs_by_argsort: "row_recs_by argsort sim_matrix df n i = row_recs sim_matrix df n i"
  by (simp add: row_recs_by_def row_recs_def top_n_idx_by_argsort split: sum.splits)

lemma recs_loop_by_argsort:
  "recs_loop_by argsort sim_matrix df n is recs = recs_loop sim_matrix df n is recs"
  by (induction "is" arbitrary: recs) (simp_all add: row_recs_by_argsort split: sum.splits)

lemma get_top_n_recs_by_argsort:
  "get_top_n_recs_by argsort sim_matrix df n = get_top_n_recs sim_matrix df n"
  by (simp add: get_top_n_recs_by_def get_top_n_recs_def recs_loop_by_argsort)

lemma distinct_is_argsort:
  assumes "is_argsort srt"
  shows "distinct (srt xs)"
proof -
  from assms have "card (set (srt xs)) = length (srt xs)"
    by (simp add: is_argsort_def)
  then show ?thesis by (rule card_distinct)
qed

lemma top_n_idx_by_descending:
  assumes "is_argsort srt"
  shows "sorted_wrt (\<lambda>a b. row[i := - 1] ! b \<le> row[i := - 1] ! a) (top_n_idx_by srt row i n)"
proof -
  let ?s = "row[i := - 1]"
  from assms have "sorted (map (\<lambda>k. ?s ! k) (srt ?s))"
    by (simp add: is_argsort_def)
  then have "sorted_wrt (\<lambda>a b. ?s ! a \<le> ?s ! b) (srt ?s)"
    by (simp add: sorted_map)
  then have "sorted_wrt (\<lambda>a b. ?s ! b \<le> ?s ! a) (rev (srt ?s))"
    by (simp add: sorted_wrt_rev)
  then show ?thesis
    unfolding top_n_idx_by_def py_slice_to_def by (auto intro: sorted_wrt_take)
qed

lemma distinct_top_n_idx_by: "is_argsort srt \<Longrightarrow> distinct (top_n_idx_by srt row i n)"
  by (simp add: top_n_idx_by_def py_slice_to_def distinct_is_argsort)

lemma descending_imp_sorted_scores:
  "sorted_wrt (\<lambda>a b. scores ! b \<le> scores ! a) ks \<Longrightarrow>
   sorted_wrt (\<ge>) (map (\<lambda>k. py_round (scores ! k) 4) ks)"
  unfolding sorted_wrt_map
  by (erule sorted_wrt_mono_rel [rotated]) (auto intro: py_round_mono)

lemma row_recs_by_InrD:
  assumes "row_recs_by srt sim_matrix df n i = Inr rs" and n: "0 \<le> n"
  shows "\<exists>row. nth_err sim_matrix i = Inr row \<and> i < length row \<and>
           rs = map (emit (row[i := - 1]) df) (top_n_idx_by srt row i n) \<and>
           length (top_n_idx_by srt row i n) = nat n"
proof -
  from assms(1) obtain row where
    row: "nth_err sim_matrix i = Inr row" "i < length row" and
    tm: "try_map (rec_at (row[i := - 1]) df (top_n_idx_by srt row i n)) [0..<nat n] = Inr rs"
    by (auto simp: row_recs_by_def split: sum.splits if_splits)
  let ?T = "top_n_idx_by srt row i n"
  let ?s = "row[i := - 1]"
  from tm have lrs: "length rs = nat n" by (auto dest: try_map_length)
  have at: "rec_at ?s df ?T j = Inr (rs ! j)" if "j < nat n" for j
    using try_map_nth [OF tm, of j] that by simp
  have inT: "j < length ?T \<and> rs ! j = emit ?s df (?T ! j)" if "j < nat n" for j
    using at [OF that]
    by (auto simp: rec_at_def nth_err_def emit_def split: if_splits)
  have "nat n \<le> length ?T"
  proof (cases "nat n")
    case 0
    then show ?thesis by simp
  next
    case (Suc k)
    then have "k < nat n" by simp
    from inT [OF this] Suc show ?thesis by simp
  qed
  moreover have "length ?T \<le> nat n"
    using n by (simp add: top_n_idx_by_def py_slice_to_def)
  ultimately have lT: "length ?T = nat n" by simp
  have "rs = map (emit ?s df) ?T"
    using lrs lT inT by (simp add: list_eq_iff_nth_eq)
  with row lT show ?thesis by blast
qed

lemma recs_loop_by_other:
  "recs_loop_by srt sim_matrix df n is recs = Inr m \<Longrightarrow>
   k \<notin> (\<lambda>i. job_id (df ! i)) ` set is \<Longrightarrow> m k = recs k"
  by (induction "is" arbitrary: recs) (auto split: sum.splits)

lemma recs_loop_by_Inr:
  "recs_loop_by srt sim_matrix df n is recs = Inr m \<Longrightarrow>
   k \<in> (\<lambda>i. job_id (df ! i)) ` set is \<Longrightarrow>
   \<exists>i' rs. i' \<in> set is \<and> job_id (df ! i') = k \<and>
       row_recs_by srt sim_matrix df n i' = Inr rs \<and> m k = Some rs"
proof (induction "is" arbitrary: recs)
  case Nil
  then show ?case by simp
next
  case (Cons a "is")
  from Cons.prems(1) obtain rs where
    a: "row_recs_by srt sim_matrix df n a = Inr rs" and
    rest: "recs_loop_by srt sim_matrix df n is (recs(job_id (df ! a) \<mapsto> rs)) = Inr m"
    by (auto split: sum.splits)
  show ?case
  proof (cases "k \<in> (\<lambda>i. job_id (df ! i)) ` set is")
    case True
    from Cons.IH [OF rest True] show ?thesis by auto
  next
    case False
    with Cons.prems(2) have ia: "k = job_id (df ! a)" by auto
    from recs_loop_by_other [OF rest False] ia have "m k = Some rs" by simp
    with a ia show ?thesis by auto
  qed
qed

lemma get_top_n_recs_by_entry:
  assumes "get_top_n_recs_by srt sim_matrix df n = Inr m" and "distinct (map job_id df)"
    and "i < length df"
  shows "\<exists>rs. row_recs_by srt sim_matrix df n i = Inr rs \<and> m (job_id (df ! i)) = Some rs"
proof -
  from assms(3) have "job_id (df ! i) \<in> (\<lambda>i. job_id (df ! i)) ` set [0..<length df]"
    by simp
  moreover from assms(1)
  have "recs_loop_by srt sim_matrix df n [0..<length df] Map.empty = Inr m"
    by (simp add: get_top_n_recs_by_def)
  ultimately have "\<exists>i' rs. i' \<in> set [0..<length df] \<and> job_id (df ! i') = job_id (df ! i) \<and>
       row_recs_by srt sim_matrix df n i' = Inr rs \<and> m (job_id (df ! i)) = Some rs"
    by (rule recs_loop_by_Inr [rotated])
  then obtain i' rs where
    i': "i' < length df" "job_id (df ! i') = job_id (df ! i)"
      "row_recs_by srt sim_matrix df n i' = Inr rs" "m (job_id (df ! i)) = Some rs"
    by auto
  from i'(1,2) assms(3) have "map job_id df ! i' = map job_id df ! i" by simp
  with assms(2,3) i'(1) have "i' = i"
    using nth_eq_iff_index_eq [of "map job_id df" i' i] by simp
  with i' show ?thesis by simp
qed

section \<open>Claims about the top-N extractor\<close>

lemma get_top_n_recs_total:
  assumes "square sim_matrix df" "0 \<le> n" "n \<le> int (length df)"
  shows "\<exists>recs. get_top_n_recs sim_matrix df n = Inr recs"
  unfolding get_top_n_recs_def
  by (rule recs_loop_total) (use assms in \<open>simp add: row_recs_Inr\<close>)

text \<open>
  C1 (amended). The extractor emits lists of exactly \<open>n\<close> entries or raises: on a non-empty
  sampled set with fewer than \<open>n\<close> items (a single item included) it raises
  \<^verbatim>\<open>IndexError\<close> and returns no map; whenever it returns a map, the list of every item
  has exactly \<open>n\<close> entries; and it does return when the set has more than \<open>n\<close> items.
\<close>

theorem get_top_n_recs_fixed_length:
  "(square sim_matrix df \<and> df \<noteq> [] \<and> int (length df) < n \<longrightarrow>
      get_top_n_recs sim_matrix df n = Inl IndexError) \<and>
   (\<forall>recs i. get_top_n_recs sim_matrix df n = Inr recs \<and> i < length df \<longrightarrow>
      (\<exists>rs. recs (job_id (df ! i)) = Some rs \<and> length rs = nat n)) \<and>
   (square sim_matrix df \<and> 0 \<le> n \<and> n < int (length df) \<longrightarrow>
      (\<exists>recs. get_top_n_recs sim_matrix df n = Inr recs))"
proof (intro conjI impI allI)
  assume a: "square sim_matrix df \<and> df \<noteq> [] \<and> int (length df) < n"
  then have "[0..<length df] = 0 # [1..<length df]"
    by (simp add: upt_conv_Cons)
  moreover from a have "row_recs sim_matrix df n 0 = Inl IndexError"
    by (simp add: row_recs_short)
  ultimately show "get_top_n_recs sim_matrix df n = Inl IndexError"
    by (simp add: get_top_n_recs_def)
next
  fix recs i
  assume a: "get_top_n_recs sim_matrix df n = Inr recs \<and> i < length df"
  then have "recs_loop sim_matrix df n [0..<length df] Map.empty = Inr recs"
    by (simp add: get_top_n_recs_def)
  moreover from a have "job_id (df ! i) \<in> (\<lambda>i. job_id (df ! i)) ` set [0..<length df]"
    by simp
  ultimately have "\<exists>i' rs. i' \<in> set [0..<length df] \<and> job_id (df ! i') = job_id (df ! i) \<and>
      row_recs sim_matrix df n i' = Inr rs \<and> recs (job_id (df ! i)) = Some rs"
    by (rule recs_loop_Inr)
  then show "\<exists>rs. recs (job_id (df ! i)) = Some rs \<and> length rs = nat n"
    by (auto dest: row_recs_length)
next
  assume "square sim_matrix df \<and> 0 \<le> n \<and> n < int (length df)"
  then show "\<exists>recs. get_top_n_recs sim_matrix df n = Inr recs"
    by (intro get_top_n_recs_total) auto
qed

theorem get_top_n_recs_fixed_length_witness:
  "get_top_n_recs [[1, 0.5], [0.5, 1]] (take 2 demo_jobs) 3 = Inl IndexError \<and>
   (\<exists>recs rs. get_top_n_recs tie_matrix demo_jobs 3 = Inr recs \<and>
      recs ''a'' = Some rs \<and> length rs = 3)"
proof -
  have sq2: "square [[1, 0.5], [0.5, 1]] (take 2 demo_jobs) \<and> take 2 demo_jobs \<noteq> [] \<and>
      int (length (take 2 demo_jobs)) < 3"
    by (simp add: square_def demo_jobs_def)
  have sq4: "square tie_matrix demo_jobs \<and> (0::int) \<le> 3 \<and> 3 < int (length demo_jobs)"
    by (simp add: square_def demo_jobs_def tie_matrix_def)
  have a: "job_id (demo_jobs ! 0) = ''a''" "0 < length demo_jobs"
    by (simp_all add: demo_jobs_def mk_job_def)
  from get_top_n_recs_fixed_length [of "[[1, 0.5], [0.5, 1]]" "take 2 demo_jobs" 3] sq2
  have "get_top_n_recs [[1, 0.5], [0.5, 1]] (take 2 demo_jobs) 3 = Inl IndexError"
    by blast
  moreover from get_top_n_recs_fixed_length [of tie_matrix demo_jobs 3] sq4
  obtain recs where r: "get_top_n_recs tie_matrix demo_jobs 3 = Inr recs"
    by blast
  with get_top_n_recs_fixed_length [of tie_matrix demo_jobs 3] a(2)
  have "\<exists>rs. recs (job_id (demo_jobs ! 0)) = Some rs \<and> length rs = nat 3"
    by blast
  with a(1) r have "\<exists>recs rs. get_top_n_recs tie_matrix demo_jobs 3 = Inr recs \<and>
      recs ''a'' = Some rs \<and> length rs = 3"
    by auto
  ultimately show ?thesis by blast
qed

text \<open>
  C1 as stated fails: on a single-item sampled set with \<open>n = 3\<close> the extractor raises
  instead of returning a map with an empty neighbour list.
\<close>

theorem single_item_set_raises:
  "get_top_n_recs [[1]] [mk_job ''a'' ''Engineer A'' ''Austin'' ''TX'' ''US'' ''Eng''] 3 =
     Inl IndexError"
  by (simp add: extractor_defs upt_rec)

text \<open>
  C2. The sentinel keeps an item out of its own list only when the set has more than \<open>n\<close>
  items (\<open>self_not_in_top_n\<close>). With exactly \<open>n = 3\<close> items it does not: the list of item
  \<open>a\<close> ends with \<open>a\<close> itself, scored \<open>-1\<close>.
\<close>

theorem self_recommended_when_set_has_n_items:
  "(case get_top_n_recs three_matrix (take 3 demo_jobs) 3 of
      Inl e \<Rightarrow> None | Inr recs \<Rightarrow> recs ''a'') =
   Some [\<lparr>rec_id = ''b'', rec_score = 0.8\<rparr>, \<lparr>rec_id = ''c'', rec_score = 0.2\<rparr>,
         \<lparr>rec_id = ''a'', rec_score = - 1\<rparr>]"
  by (simp add: extractor_defs three_matrix_def demo_jobs_def upt_rec)

text \<open>
  C7 (amended). Whenever the extractor returns on a set of unique ids, whatever order
  \<^verbatim>\<open>np.argsort\<close> leaves equal scores in, the list of item \<open>i\<close> is the entries of the
  positions \<open>top_n_idx_by srt row i n\<close> of its row: exactly \<open>n\<close> distinct positions,
  descending by raw score, the emitted scores descending as well and each a multiple of
  \<open>10^-4\<close>. No order among positions of equal score is fixed.
\<close>

theorem neighbor_list_descending:
  assumes "is_argsort srt" and "get_top_n_recs_by srt sim_matrix df n = Inr recs"
    and "distinct (map job_id df)" and "i < length df" and "0 \<le> n"
  shows "\<exists>row ks. nth_err sim_matrix i = Inr row \<and> ks = top_n_idx_by srt row i n \<and>
           recs (job_id (df ! i)) = Some (map (emit (row[i := - 1]) df) ks) \<and>
           length ks = nat n \<and> distinct ks \<and>
           sorted_wrt (\<lambda>a b. row[i := - 1] ! b \<le> row[i := - 1] ! a) ks \<and>
           sorted_wrt (\<ge>) (map rec_score (map (emit (row[i := - 1]) df) ks)) \<and>
           list_all (\<lambda>r. rec_score r * 10 ^ 4 \<in> \<int>) (map (emit (row[i := - 1]) df) ks)"
proof -
  from get_top_n_recs_by_entry [OF assms(2-4)] obtain rs where
    rs: "row_recs_by srt sim_matrix df n i = Inr rs" "recs (job_id (df ! i)) = Some rs"
    by blast
  from row_recs_by_InrD [OF rs(1) assms(5)] obtain row where
    row: "nth_err sim_matrix i = Inr row"
      "rs = map (emit (row[i := - 1]) df) (top_n_idx_by srt row i n)"
      "length (top_n_idx_by srt row i n) = nat n"
    by blast
  let ?s = "row[i := - 1]"
  let ?ks = "top_n_idx_by srt row i n"
  have ds: "sorted_wrt (\<lambda>a b. ?s ! b \<le> ?s ! a) ?ks"
    by (rule top_n_idx_by_descending [OF assms(1)])
  have di: "distinct ?ks"
    by (rule distinct_top_n_idx_by [OF assms(1)])
  have eq: "map rec_score (map (emit ?s df) ?ks) = map (\<lambda>k. py_round (?s ! k) 4) ?ks"
    by (simp add: emit_def)
  have srt: "sorted_wrt (\<ge>) (map rec_score (map (emit ?s df) ?ks))"
    unfolding eq by (rule descending_imp_sorted_scores [OF ds])
  have dec: "list_all (\<lambda>r. rec_score r * 10 ^ 4 \<in> \<int>) (map (emit ?s df) ?ks)"
    using py_round_decimals [of _ 4] by (simp add: list_all_iff emit_def)
  from row rs(2) ds di srt dec show ?thesis by blast
qed

theorem neighbor_list_descending_witness:
  "\<exists>recs ks. get_top_n_recs_by argsort three_matrix (take 3 demo_jobs) 2 = Inr recs \<and>
     recs ''a'' = Some (map (emit [- 1, 0.8, 0.2] (take 3 demo_jobs)) ks) \<and>
     length ks = 2 \<and> distinct ks \<and>
     sorted_wrt (\<lambda>a b. [- 1, 0.8, 0.2] ! b \<le> [- 1, 0.8, 0.2 :: real] ! a) ks"
proof -
  have sq: "square three_matrix (take 3 demo_jobs)" "(0::int) \<le> 2"
    "2 \<le> int (length (take 3 demo_jobs))"
    by (simp_all add: square_def demo_jobs_def three_matrix_def)
  from get_top_n_recs_total [OF sq] obtain recs where
    r: "get_top_n_recs_by argsort three_matrix (take 3 demo_jobs) 2 = Inr recs"
    by (auto simp: get_top_n_recs_by_argsort)
  have d: "distinct (map job_id (take 3 demo_jobs))" "0 < length (take 3 demo_jobs)"
    by (simp_all add: demo_jobs_def mk_job_def)
  from neighbor_list_descending [OF is_argsort_argsort r d sq(2)] obtain row ks where
    w: "nth_err three_matrix 0 = Inr row"
      "recs (job_id (take 3 demo_jobs ! 0)) = Some (map (emit (row[0 := - 1]) (take 3 demo_jobs)) ks)"
      "length ks = nat 2" "distinct ks"
      "sorted_wrt (\<lambda>a b. row[0 := - 1] ! b \<le> row[0 := - 1] ! a) ks"
    by blast
  from w(1) have row: "row = [1, 0.8, 0.2]"
    by (simp add: nth_err_def three_matrix_def)
  have "job_id (take 3 demo_jobs ! 0) = ''a''"
    by (simp add: demo_jobs_def mk_job_def)
  with r w(2-5) row show ?thesis by auto
qed

text \<open>
  C7 as stated fails: ascending position order among equal scores is not what the call
  guarantees. On five items of equal similarity the claim requires the list \<open>b, c, d\<close> for
  item \<open>a\<close>; a sort that numpy's contract admits (the order-preserving one) gives
  \<open>e, d, c\<close>.
\<close>

theorem ascending_ties_not_guaranteed:
  "\<not> (\<forall>srt. is_argsort srt \<longrightarrow>
        (case get_top_n_recs_by srt tied_matrix tied_jobs 3 of
           Inl e \<Rightarrow> None | Inr recs \<Rightarrow> map_option (map rec_id) (recs ''a'')) =
        Some [''b'', ''c'', ''d''])"
proof
  assume "\<forall>srt. is_argsort srt \<longrightarrow>
        (case get_top_n_recs_by srt tied_matrix tied_jobs 3 of
           Inl e \<Rightarrow> None | Inr recs \<Rightarrow> map_option (map rec_id) (recs ''a'')) =
        Some [''b'', ''c'', ''d'']"
  with is_argsort_argsort
  have "(case get_top_n_recs tied_matrix tied_jobs 3 of
           Inl e \<Rightarrow> None | Inr recs \<Rightarrow> map_option (map rec_id) (recs ''a'')) =
        Some [''b'', ''c'', ''d'']"
    by (auto simp: get_top_n_recs_by_argsort)
  moreover have "(case get_top_n_recs tied_matrix tied_jobs 3 of
           Inl e \<Rightarrow> None | Inr recs \<Rightarrow> map_option (map rec_id) (recs ''a'')) =
        Some [''e'', ''d'', ''c'']"
    by (simp add: extractor_defs tied_matrix_def tied_jobs_def upt_rec)
  ultimately show False by simp
qed

section \<open>Claims about the similarity matrices\<close>

text \<open>
  C9. Every entry of the location similarity matrix is one of \<open>0\<close>, \<open>0.2\<close>, \<open>0.5\<close>, \<open>1\<close>,
  chosen by the first match in the order city, state, country.
\<close>

theorem loc_sim_priority:
  assumes "i < length df" and "j < length df"
  shows "loc_sim df ! i ! j \<in> {0, 0.2, 0.5, 1} \<and>
         (loc_sim df ! i ! j = 1 \<longleftrightarrow> city (df ! i) = city (df ! j)) \<and>
         (loc_sim df ! i ! j = 0.5 \<longleftrightarrow>
            city (df ! i) \<noteq> city (df ! j) \<and> state (df ! i) = state (df ! j)) \<and>
         (loc_sim df ! i ! j = 0.2 \<longleftrightarrow>
            city (df ! i) \<noteq> city (df ! j) \<and> state (df ! i) \<noteq> state (df ! j) \<and>
            country (df ! i) = country (df ! j)) \<and>
         (loc_sim df ! i ! j = 0 \<longleftrightarrow>
            city (df ! i) \<noteq> city (df ! j) \<and> state (df ! i) \<noteq> state (df ! j) \<and>
            country (df ! i) \<noteq> country (df ! j))"
proof -
  from assms have eq: "loc_sim df ! i ! j =
      (if city (df ! i) = city (df ! j) then 1
       else if state (df ! i) = state (df ! j) then 0.5
       else if country (df ! i) = country (df ! j) then 0.2 else 0)"
    by (simp add: loc_sim_def)
  show ?thesis unfolding eq by simp
qed

theorem loc_sim_priority_witness:
  "loc_sim demo_jobs ! 0 ! 1 = 1 \<and> loc_sim demo_jobs ! 0 ! 2 = 0.5 \<and>
   loc_sim demo_jobs ! 0 ! 3 = 0.2 \<and> loc_sim no_city_jobs ! 0 ! 2 = 0"
proof -
  have l: "0 < length demo_jobs" "1 < length demo_jobs" "2 < length demo_jobs"
    "3 < length demo_jobs" "0 < length no_city_jobs" "1 < length no_city_jobs"
    by (simp_all add: demo_jobs_def no_city_jobs_def)
  have f: "city (demo_jobs ! 0) = city (demo_jobs ! 1)"
    "city (demo_jobs ! 0) \<noteq> city (demo_jobs ! 2) \<and> state (demo_jobs ! 0) = state (demo_jobs ! 2)"
    "city (demo_jobs ! 0) \<noteq> city (demo_jobs ! 3) \<and> state (demo_jobs ! 0) \<noteq> state (demo_jobs ! 3)
       \<and> country (demo_jobs ! 0) = country (demo_jobs ! 3)"
    by (simp_all add: demo_jobs_def mk_job_def)
  have g: "loc_sim no_city_jobs ! 0 ! 2 = 0"
    by (simp add: loc_sim_def no_city_jobs_def mk_job_def)
  from loc_sim_priority [OF l(1) l(2)] f(1) have "loc_sim demo_jobs ! 0 ! 1 = 1" by blast
  moreover from loc_sim_priority [OF l(1) l(3)] f(2) have "loc_sim demo_jobs ! 0 ! 2 = 0.5"
    by blast
  moreover from loc_sim_priority [OF l(1) l(4)] f(3) have "loc_sim demo_jobs ! 0 ! 3 = 0.2"
    by blast
  ultimately show ?thesis using g by blast
qed

text \<open>
  C10. Two items whose city fields are both missing are both filled with \<open>Unknown\<close> and
  so get location similarity \<open>1\<close>, whatever their states and countries are.
\<close>

theorem missing_cities_match:
  assumes "i < length df" and "j < length df"
    and "city (df ! i) = []" and "city (df ! j) = []"
  shows "city (map fill_missing df ! i) = ''Unknown'' \<and>
         city (map fill_missing df ! j) = ''Unknown'' \<and>
         loc_sim (map fill_missing df) ! i ! j = 1"
  using assms by (simp add: loc_sim_def fill_missing_def replace_empty_def)

theorem missing_cities_match_witness:
  "state (no_city_jobs ! 0) \<noteq> state (no_city_jobs ! 1) \<and>
   country (no_city_jobs ! 0) \<noteq> country (no_city_jobs ! 1) \<and>
   city (map fill_missing no_city_jobs ! 0) = ''Unknown'' \<and>
   city (map fill_missing no_city_jobs ! 1) = ''Unknown'' \<and>
   loc_sim (map fill_missing no_city_jobs) ! 0 ! 1 = 1"
proof -
  have l: "0 < length no_city_jobs" "1 < length no_city_jobs"
    and c: "city (no_city_jobs ! 0) = []" "city (no_city_jobs ! 1) = []"
    by (simp_all add: no_city_jobs_def mk_job_def)
  have "state (no_city_jobs ! 0) \<noteq> state (no_city_jobs ! 1)"
    "country (no_city_jobs ! 0) \<noteq> country (no_city_jobs ! 1)"
    by (simp_all add: no_city_jobs_def mk_job_def)
  with missing_cities_match [OF l c] show ?thesis by blast
qed

text \<open>
  The weights of \<^verbatim>\<open>WEIGHTS\<close> sum to \<open>1\<close>, so the blend of entries in \<open>[0, 1]\<close> stays in
  \<open>[0, 1]\<close>. The code reads them from the literal and holds no check of the sum.
\<close>

lemma weights_blend_bounded:
  assumes "0 \<le> d \<and> d \<le> 1" "0 \<le> t \<and> t \<le> 1" "0 \<le> c \<and> c \<le> 1" "0 \<le> l \<and> l \<le> 1"
    "0 \<le> j \<and> j \<le> 1" "0 \<le> e \<and> e \<le> 1"
  shows "weight_sum WEIGHTS = 1 \<and>
         (\<exists>v. weighted_sim_entry WEIGHTS d t c l j e = Inr v \<and> 0 \<le> v \<and> v \<le> 1)"
proof -
  have "weighted_sim_entry WEIGHTS d t c l j e =
      Inr (0.35 * d + 0.25 * t + 0.15 * c + 0.10 * l + 0.08 * j + 0.07 * e)"
    by (simp add: weighted_sim_entry_def dict_get_def WEIGHTS_def)
  moreover from assms have "0 \<le> 0.35 * d + 0.25 * t + 0.15 * c + 0.10 * l + 0.08 * j + 0.07 * e"
    by simp
  moreover from assms have "0.35 * d + 0.25 * t + 0.15 * c + 0.10 * l + 0.08 * j + 0.07 * e \<le> 1"
    by simp
  moreover have "weight_sum WEIGHTS = 1"
    by (simp add: weight_sum_def WEIGHTS_def)
  ultimately show ?thesis by blast
qed

section \<open>Properties of the stratified sampler\<close>

subsection \<open>Rounding to \<^verbatim>\<open>float64\<close>\<close>

lemma round_half_even_of_int: "round_half_even (of_int z) = z"
  by (simp add: round_half_even_def)

lemma round_half_even_nonneg: "0 \<le> x \<Longrightarrow> 0 \<le> round_half_even x"
  by (simp add: round_half_even_def Let_def)

lemma fl_nonneg: "0 \<le> x \<Longrightarrow> 0 \<le> fl x"
  by (simp add: fl_def Let_def round_half_even_nonneg)

lemma powr_2_int: "2 powr (of_int e) = (2 powi e :: real)"
  by (simp add: powr_real_of_int')

lemma floor_log2_eq:
  assumes "2 powi e \<le> x" and "x < 2 powi (e + 1)"
  shows "\<lfloor>log 2 x\<rfloor> = e"
proof -
  have "0 < (2::real) powi e" by simp
  with assms(1) have x: "0 < x" by linarith
  have "2 powr (of_int e) \<le> x \<and> x < 2 powr (of_int e + 1)"
    using assms powr_2_int [of e] powr_2_int [of "e + 1"] by simp
  with x show ?thesis by (simp add: floor_log_eq_powr_iff)
qed

lemma fl_eval:
  assumes "x \<noteq> 0" and "2 powi e \<le> \<bar>x\<bar>" and "\<bar>x\<bar> < 2 powi (e + 1)"
  shows "fl x = of_int (round_half_even (x / 2 powi (e - 52))) * 2 powi (e - 52)"
  using assms(1) floor_log2_eq [OF assms(2,3)] by (simp add: fl_def Let_def)

lemma fl_dyadic:
  assumes "\<bar>m\<bar> < 2 ^ 53"
  shows "fl (of_int m * 2 powi k) = of_int m * 2 powi k"
proof (cases "m = 0")
  case True
  then show ?thesis by (simp add: fl_def)
next
  case False
  let ?x = "of_int m * 2 powi k :: real"
  let ?e = "\<lfloor>log 2 \<bar>?x\<bar>\<rfloor> - 52"
  from False have x0: "?x \<noteq> 0" by simp
  have "\<bar>?x\<bar> < 2 powi (53 + k)"
  proof -
    from assms have "\<bar>real_of_int m\<bar> < 2 ^ 53"
      by (metis of_int_abs of_int_less_numeral_power_cancel_iff)
    then have "\<bar>real_of_int m\<bar> * 2 powi k < 2 ^ 53 * 2 powi k"
      by (intro mult_strict_right_mono) simp_all
    then show ?thesis by (simp add: abs_mult power_int_add)
  qed
  then have "\<bar>?x\<bar> < 2 powr (of_int (53 + k))"
    by (simp only: powr_2_int)
  then have "log 2 \<bar>?x\<bar> < of_int (53 + k)"
    using x0 by (subst log_less_iff) simp_all
  then have "\<lfloor>log 2 \<bar>?x\<bar>\<rfloor> < 53 + k" by linarith
  then have ke: "0 \<le> k - ?e" by simp
  have "?x / 2 powi ?e = of_int m * 2 powi (k - ?e)"
    by (simp add: power_int_diff)
  also have "\<dots> = of_int (m * 2 ^ nat (k - ?e))"
    using ke by (simp add: power_int_def)
  finally have "round_half_even (?x / 2 powi ?e) = m * 2 ^ nat (k - ?e)"
    by (simp only: round_half_even_of_int)
  then have "fl ?x = of_int (m * 2 ^ nat (k - ?e)) * 2 powi ?e"
    using x0 by (simp add: fl_def Let_def)
  also have "\<dots> = of_int m * (2 powi (k - ?e) * 2 powi ?e)"
    using ke by (simp add: power_int_def)
  also have "\<dots> = ?x"
    by (simp add: power_int_add [symmetric])
  finally show ?thesis .
qed

lemma fl_of_int: "\<bar>m\<bar> < 2 ^ 53 \<Longrightarrow> fl (of_int m) = of_int m"
  using fl_dyadic [of m 0] by simp

lemma fl_of_int_div: "\<bar>m\<bar> < 2 ^ 53 \<Longrightarrow> fl (of_int m / 2 ^ j) = of_int m / 2 ^ j"
  using fl_dyadic [of m "- int j"] by (simp add: power_int_minus field_simps)

lemma fl_values:
  "fl 0 = 0" "fl 1 = 1" "fl 3 = 3" "fl 4 = 4" "fl 9 = 9" "fl 10 = 10"
  "fl (1 / 4) = 1 / 4" "fl (3 / 4) = 3 / 4" "fl (5 / 2) = 5 / 2" "fl (15 / 2) = 15 / 2"
  "fl (9 / 4) = 9 / 4" "fl (27 / 4) = 27 / 4"
  using fl_of_int [of 0] fl_of_int [of 1] fl_of_int [of 3] fl_of_int [of 4] fl_of_int [of 9]
    fl_of_int [of 10] fl_of_int_div [of 1 2] fl_of_int_div [of 3 2] fl_of_int_div [of 5 1]
    fl_of_int_div [of 15 1] fl_of_int_div [of 9 2] fl_of_int_div [of 27 2]
  by simp_all

lemma scaled_share_nonneg: "0 \<le> n \<Longrightarrow> 0 \<le> scaled_share k t n"
  by (simp add: scaled_share_def fl_nonneg)

text \<open>
  The rounding is visible on plain counts: 15 records of 22 with \<open>n = 22\<close> give the
  product \<open>15 - 2^-49\<close>, truncated to 14, where the exact product is 15.
\<close>

lemma scaled_share_undershoots:
  "py_int (scaled_share 15 22 22) = 14 \<and> py_int (real 15 / real 22 * of_int 22) = 15"
proof -
  have i: "fl 15 = 15" "fl 22 = 22"
    using fl_of_int [of 15] fl_of_int [of 22] by simp_all
  have q: "fl (15 / 22) = 6141272219141585 / 9007199254740992"
    using fl_eval [of "15 / 22" "- 1"] by (simp add: round_half_even_def power_int_minus)
  have p: "6141272219141585 / 9007199254740992 * 22 =
      (67553994410557435 / 4503599627370496 :: real)"
    by simp
  have r: "fl (67553994410557435 / 4503599627370496) = 8444249301319679 / 562949953421312"
    using fl_eval [of "67553994410557435 / 4503599627370496" 3]
    by (simp add: round_half_even_def power_int_minus)
  have "scaled_share 15 22 22 = fl (fl (fl 15 / fl 22) * fl 22)"
    by (simp add: scaled_share_def)
  also have "\<dots> = fl (fl (15 / 22) * 22)" by (simp only: i)
  also have "\<dots> = fl (6141272219141585 / 9007199254740992 * 22)" by (simp only: q)
  also have "\<dots> = fl (67553994410557435 / 4503599627370496)" by (simp only: p)
  also have "\<dots> = 8444249301319679 / 562949953421312" by (rule r)
  finally have v: "scaled_share 15 22 22 = 8444249301319679 / 562949953421312" .
  have "py_int (8444249301319679 / 562949953421312) = 14"
    by (simp add: py_int_def)
  moreover have "py_int (real 15 / real 22 * of_int 22) = 15"
    by (simp add: py_int_def)
  ultimately show ?thesis by (simp only: v)
qed

subsection \<open>Counts and quotas\<close>

lemmas sampler_defs =
  final_quotas_def initial_quotas_def value_counts_def dedup_def drop_duplicates_def
  replace_empty_def demo_jobs_def mk_job_def total_def py_int_def scaled_share_def fl_values

lemma sum_list_insort_key:
  "sum_list (map g (insort_key f x xs)) = g x + sum_list (map g xs)"
  for g :: "'a \<Rightarrow> 'b::comm_monoid_add"
  by (induction xs) (auto simp: add.left_commute)

lemma sum_list_sort_key:
  "sum_list (map g (sort_key f xs)) = sum_list (map g xs)"
  for g :: "'a \<Rightarrow> 'b::comm_monoid_add"
  by (induction xs) (simp_all add: sum_list_insort_key)

lemma set_value_counts:
  "set (value_counts xs) = (\<lambda>c. (c, count_list xs c)) ` set xs"
  by (simp add: value_counts_def)

lemma distinct_value_counts: "distinct (map fst (value_counts xs))"
proof -
  let ?ys = "map (\<lambda>c. (c, count_list xs c)) (rev (remdups (rev xs)))"
  have "distinct ?ys"
    by (simp add: distinct_map inj_on_def)
  moreover have "inj_on fst (set ?ys)"
    by (auto simp: inj_on_def)
  ultimately have "distinct ?ys \<and> inj_on fst (set ?ys)" ..
  then have "distinct (sort_key (\<lambda>(c, k). - int k) ?ys) \<and>
      inj_on fst (set (sort_key (\<lambda>(c, k). - int k) ?ys))"
    by simp
  then show ?thesis unfolding value_counts_def by (simp only: distinct_map)
qed

lemma sum_value_counts: "sum_list (map snd (value_counts xs)) = length xs"
proof -
  have "sum_list (map snd (value_counts xs)) =
      sum_list (map (count_list xs) (rev (remdups (rev xs))))"
    by (simp add: value_counts_def sum_list_sort_key comp_def)
  also have "\<dots> = sum (count_list xs) (set (rev (remdups (rev xs))))"
    by (rule sum_list_distinct_conv_sum_set) simp
  also have "\<dots> = length xs"
    by (simp add: sum_count_set)
  finally show ?thesis .
qed

lemma value_counts_Nil: "value_counts [] = []"
  by (simp add: value_counts_def)

lemma value_counts_eq_Nil: "value_counts xs = [] \<longleftrightarrow> xs = []"
proof
  assume "value_counts xs = []"
  then have "set (value_counts xs) = {}" by simp
  then show "xs = []" by (simp add: set_value_counts)
qed (simp add: value_counts_Nil)

lemma fst_initial_quotas: "map fst (initial_quotas cc n m) = map fst cc"
  by (simp add: initial_quotas_def comp_def case_prod_beta)

lemma initial_quotas_lookup:
  assumes "c \<in> set xs"
  shows "map_of (initial_quotas (value_counts xs) n m) c =
     Some (max (py_int (scaled_share (count_list xs c) (length xs) n)) m)"
proof -
  let ?q = "initial_quotas (value_counts xs) n m"
  have d: "distinct (map fst ?q)"
    by (simp add: fst_initial_quotas distinct_value_counts)
  from assms have "(c, count_list xs c) \<in> set (value_counts xs)"
    by (simp add: set_value_counts)
  then have "(c, max (py_int (scaled_share (count_list xs c) (length xs) n)) m) \<in> set ?q"
    unfolding initial_quotas_def sum_value_counts by force
  with d show ?thesis by simp
qed

text \<open>
  C6 (amended). For every category present in the deduplicated corpus the initial quota is
  \<open>max(int(x), M)\<close>, where \<open>x\<close> is the \<^verbatim>\<open>float64\<close> product of the category's share
  (its count over the size of the deduplicated corpus, a \<^verbatim>\<open>float64\<close> quotient) with
  \<open>N\<close>: the product is truncated towards zero, not rounded.
\<close>

theorem initial_quota_truncates:
  assumes "c \<in> set (map category (dedup df))"
  shows "map_of (initial_quotas (value_counts (map category (dedup df))) n m) c =
     Some (max (py_int (scaled_share (count_list (map category (dedup df)) c)
                          (length (dedup df)) n)) m)"
  using initial_quotas_lookup [OF assms, of n m] by simp

theorem initial_quota_truncates_witness:
  "map_of (initial_quotas (value_counts (map category (dedup demo_jobs))) 10 5) ''Health'' =
     Some 5 \<and>
   map_of (initial_quotas (value_counts (map category (dedup demo_jobs))) 10 5) ''Eng'' =
     Some 7"
proof -
  have c: "''Health'' \<in> set (map category (dedup demo_jobs))"
    "''Eng'' \<in> set (map category (dedup demo_jobs))"
    by (simp_all add: sampler_defs)
  have v: "max (py_int (scaled_share (count_list (map category (dedup demo_jobs)) ''Health'')
                          (length (dedup demo_jobs)) 10)) 5 = 5"
    "max (py_int (scaled_share (count_list (map category (dedup demo_jobs)) ''Eng'')
                          (length (dedup demo_jobs)) 10)) 5 = 7"
    by (simp_all add: sampler_defs)
  from initial_quota_truncates [OF c(1), of 10 5] initial_quota_truncates [OF c(2), of 10 5] v
  show ?thesis by simp
qed

text \<open>
  C6 as stated fails: the category \<open>Eng\<close> holds 3 of 4 records; with \<open>N = 9\<close> and
  \<open>M = 5\<close> its quota is \<open>int(6.75) = 6\<close>, while \<open>max(round(6.75), 5) = 7\<close>
  (\<open>0.75\<close> and \<open>6.75\<close> are \<^verbatim>\<open>float64\<close> numbers, so no rounding error is involved).
\<close>

theorem initial_quota_not_rounded:
  "map_of (initial_quotas (value_counts (map category (dedup demo_jobs))) 9 5) ''Eng'' = Some 6 \<and>
   max (round (3 / 4 * 9 :: real)) 5 = (7::int)"
  by (simp add: sampler_defs round_def)

lemma argmax_from_max:
  "\<exists>q. (argmax_from best v cs, q) \<in> insert (best, v) (set cs) \<and>
       (\<forall>p \<in> insert (best, v) (set cs). snd p \<le> q)"
proof (induction best v cs rule: argmax_from.induct)
  case (1 best v)
  then show ?case by simp
next
  case (2 best v c q cs)
  show ?case
  proof (cases "v < q")
    case True
    from 2(1) [OF True] obtain r where
      "(argmax_from c q cs, r) \<in> insert (c, q) (set cs)"
      "\<forall>p \<in> insert (c, q) (set cs). snd p \<le> r" by blast
    with True show ?thesis by (intro exI [of _ r]) auto
  next
    case False
    from 2(2) [OF False] obtain r where
      "(argmax_from best v cs, r) \<in> insert (best, v) (set cs)"
      "\<forall>p \<in> insert (best, v) (set cs). snd p \<le> r" by blast
    with False show ?thesis by (intro exI [of _ r]) auto
  qed
qed

lemma idxmax_max:
  assumes "idxmax cs = Inr label"
  shows "\<exists>q. (label, q) \<in> set cs \<and> (\<forall>p \<in> set cs. snd p \<le> q)"
proof (cases cs)
  case Nil
  with assms show ?thesis by simp
next
  case (Cons a cs')
  obtain c v where a: "a = (c, v)" by (cases a)
  with Cons assms have "label = argmax_from c v cs'" by simp
  with argmax_from_max [of c v cs'] Cons a show ?thesis by simp
qed

lemma idxmax_nonempty: "cs \<noteq> [] \<Longrightarrow> \<exists>label. idxmax cs = Inr label"
  by (cases cs) auto

lemma fst_adjust: "map fst (adjust label d cs) = map fst cs"
  by (induction cs) auto

lemma set_adjust:
  "distinct (map fst cs) \<Longrightarrow> (label, q) \<in> set cs \<Longrightarrow>
   set (adjust label d cs) = insert (label, q + d) (set cs - {(label, q)})"
proof (induction cs)
  case Nil
  then show ?case by simp
next
  case (Cons a cs)
  obtain c v where a: "a = (c, v)" by (cases a)
  show ?case
  proof (cases "c = label")
    case True
    with Cons.prems a have "v = q" "(label, q) \<notin> set cs"
      by (auto simp: image_iff)
    with True a show ?thesis by auto
  next
    case False
    with Cons.prems a have "(label, q) \<in> set cs" "distinct (map fst cs)" by auto
    from Cons.IH [OF this(2,1)] False a show ?thesis by auto
  qed
qed

lemma nonneg_adjust_up: "nonneg cs \<Longrightarrow> 0 \<le> d \<Longrightarrow> nonneg (adjust label d cs)"
  by (induction cs) (auto simp: nonneg_def)

lemma nonneg_adjust_down:
  assumes "distinct (map fst cs)" and "(label, q) \<in> set cs" and "1 \<le> q" and "nonneg cs"
  shows "nonneg (adjust label (- 1) cs)"
  using assms(3,4) unfolding nonneg_def list_all_iff set_adjust [OF assms(1,2)] by auto

lemma max_positive:
  assumes "0 < total cs" and "\<forall>p \<in> set cs. snd p \<le> q"
  shows "1 \<le> q"
proof (rule ccontr)
  assume "\<not> 1 \<le> q"
  with assms(2) have "\<forall>x \<in> set (map snd cs). x \<le> 0" by auto
  then have "sum_list (map snd cs) \<le> 0" by (intro sum_list_nonpos) auto
  with assms(1) show False by (simp add: total_def)
qed

lemma shrink_result:
  "cs \<noteq> [] \<Longrightarrow>
   \<exists>cs'. shrink cs n = Inr cs' \<and> map fst cs' = map fst cs \<and> total cs' = min n (total cs) \<and>
     (distinct (map fst cs) \<and> 0 \<le> n \<and> nonneg cs \<longrightarrow> nonneg cs')"
proof (induction cs n rule: shrink.induct)
  case (1 cs n)
  show ?case
  proof (cases "n < total cs")
    case False
    then show ?thesis by (simp add: shrink.simps)
  next
    case True
    from idxmax_nonempty [OF "1.prems"] obtain label where l: "idxmax cs = Inr label" by blast
    let ?cs = "adjust label (- 1) cs"
    have ne: "?cs \<noteq> []"
      using "1.prems" fst_adjust [of label "- 1" cs] by (metis map_is_Nil_conv)
    from "1.IH" [OF True l ne] obtain cs' where
      r: "shrink ?cs n = Inr cs'" "map fst cs' = map fst ?cs" "total cs' = min n (total ?cs)"
        "distinct (map fst ?cs) \<and> 0 \<le> n \<and> nonneg ?cs \<longrightarrow> nonneg cs'"
      by blast
    have t: "total ?cs = total cs - 1"
      using total_adjust_idxmax [OF l, of "- 1"] by simp
    have "nonneg cs'" if h: "distinct (map fst cs) \<and> 0 \<le> n \<and> nonneg cs"
    proof -
      from idxmax_max [OF l] obtain q where
        q: "(label, q) \<in> set cs" "\<forall>p \<in> set cs. snd p \<le> q" by blast
      from True h have "0 < total cs" by simp
      from max_positive [OF this q(2)] have "1 \<le> q" .
      with h q(1) have "nonneg ?cs" by (intro nonneg_adjust_down) auto
      with r(4) h show ?thesis by (simp add: fst_adjust)
    qed
    with r(1-3) t True l show ?thesis
      by (simp add: shrink.simps [of cs n] fst_adjust)
  qed
qed

lemma grow_result:
  "cs \<noteq> [] \<Longrightarrow>
   \<exists>cs'. grow cs n = Inr cs' \<and> map fst cs' = map fst cs \<and> total cs' = max n (total cs) \<and>
     (nonneg cs \<longrightarrow> nonneg cs')"
proof (induction cs n rule: grow.induct)
  case (1 cs n)
  show ?case
  proof (cases "total cs < n")
    case False
    then show ?thesis by (simp add: grow.simps)
  next
    case True
    from idxmax_nonempty [OF "1.prems"] obtain label where l: "idxmax cs = Inr label" by blast
    let ?cs = "adjust label 1 cs"
    have ne: "?cs \<noteq> []"
      using "1.prems" fst_adjust [of label 1 cs] by (metis map_is_Nil_conv)
    from "1.IH" [OF True l ne] obtain cs' where
      r: "grow ?cs n = Inr cs'" "map fst cs' = map fst ?cs" "total cs' = max n (total ?cs)"
        "nonneg ?cs \<longrightarrow> nonneg cs'"
      by blast
    have t: "total ?cs = total cs + 1"
      using total_adjust_idxmax [OF l, of 1] by simp
    from r(4) have "nonneg cs \<longrightarrow> nonneg cs'"
      by (auto intro: nonneg_adjust_up)
    with r(1-3) t True l show ?thesis
      by (simp add: grow.simps [of cs n] fst_adjust)
  qed
qed

lemma py_int_nonneg: "0 \<le> x \<Longrightarrow> 0 \<le> py_int x"
  by (simp add: py_int_def)

lemma nonneg_initial_quotas:
  assumes "0 \<le> n"
  shows "nonneg (initial_quotas cc n m)"
proof -
  have "0 \<le> max (py_int (scaled_share k t n)) m" for k t :: nat
  proof -
    from assms have "0 \<le> py_int (scaled_share k t n)"
      by (intro py_int_nonneg scaled_share_nonneg)
    then show ?thesis by simp
  qed
  then show ?thesis
    unfolding nonneg_def list_all_iff initial_quotas_def by auto
qed

lemma final_quotas_result:
  assumes "dedup df \<noteq> []"
  shows "\<exists>qs. final_quotas df n m = Inr qs \<and> total qs = n \<and> qs \<noteq> [] \<and>
           (0 \<le> n \<longrightarrow> nonneg qs)"
proof -
  let ?cats = "map category (dedup df)"
  let ?q0 = "initial_quotas (value_counts ?cats) n m"
  from assms have "value_counts ?cats \<noteq> []" by (simp add: value_counts_eq_Nil)
  then have ne: "?q0 \<noteq> []" by (simp add: initial_quotas_def)
  have d: "distinct (map fst ?q0)"
    by (simp add: fst_initial_quotas distinct_value_counts)
  from shrink_result [OF ne, of n] obtain cs where
    s: "shrink ?q0 n = Inr cs" "map fst cs = map fst ?q0" "total cs = min n (total ?q0)"
      "distinct (map fst ?q0) \<and> 0 \<le> n \<and> nonneg ?q0 \<longrightarrow> nonneg cs"
    by blast
  from s(2) ne have ne': "cs \<noteq> []" by (metis map_is_Nil_conv)
  from grow_result [OF ne', of n] obtain qs where
    g: "grow cs n = Inr qs" "map fst qs = map fst cs" "total qs = max n (total cs)"
      "nonneg cs \<longrightarrow> nonneg qs"
    by blast
  from g(2) ne' have "qs \<noteq> []" by (metis map_is_Nil_conv)
  moreover from s(3) g(3) have "total qs = n" by simp
  moreover from s(4) g(4) d have "0 \<le> n \<longrightarrow> nonneg qs"
    by (simp add: nonneg_initial_quotas)
  moreover from s(1) g(1) have "final_quotas df n m = Inr qs"
    by (simp add: final_quotas_def)
  ultimately show ?thesis by blast
qed

lemma draw_result:
  assumes "draws_exactly smp" and "0 \<le> snd p"
  shows "\<exists>rows. draw smp dd p = Inr rows \<and> length rows = drawn dd p"
proof -
  obtain c q where p: "p = (c, q)" by (cases p)
  let ?k = "min q (int (length (cat_df dd c)))"
  from assms(2) p have k: "0 \<le> ?k" "?k \<le> int (length (cat_df dd c))" by simp_all
  then have "nat ?k \<le> length (cat_df dd c)" by simp
  with assms(1) have "length (smp (nat ?k) (cat_df dd c)) = nat ?k"
    by (simp add: draws_exactly_def)
  with k p show ?thesis
    by (simp add: draw_def sample_rows_def drawn_def)
qed

lemma try_map_draw:
  assumes "draws_exactly smp"
  shows "nonneg qs \<Longrightarrow>
    \<exists>sampled. try_map (draw smp dd) qs = Inr sampled \<and>
       length (concat sampled) = sum_list (map (drawn dd) qs)"
proof (induction qs)
  case Nil
  then show ?case by simp
next
  case (Cons p qs)
  then have "0 \<le> snd p" "nonneg qs" by (simp_all add: nonneg_def)
  from draw_result [OF assms this(1), of dd] Cons.IH [OF this(2)]
  show ?case by auto
qed

lemma drawn_le_total:
  "nonneg qs \<Longrightarrow> int (sum_list (map (drawn dd) qs)) \<le> total qs"
  by (induction qs) (auto simp: nonneg_def total_def drawn_def)

lemma drawn_eq_total:
  "nonneg qs \<Longrightarrow> \<forall>p \<in> set qs. snd p \<le> int (length (cat_df dd (fst p))) \<Longrightarrow>
   int (sum_list (map (drawn dd) qs)) = total qs"
  by (induction qs) (auto simp: nonneg_def total_def drawn_def)

lemma drop_dups_nonempty: "drop_dups [] df = [] \<longleftrightarrow> df = []"
  by (cases df) auto

lemma dedup_eq_Nil: "dedup df = [] \<longleftrightarrow> df = []"
  by (simp add: dedup_def drop_duplicates_def drop_dups_nonempty)

text \<open>
  C4 (amended). For every non-empty deduplicated corpus both adjustment loops terminate
  and leave quotas whose sum is the target size \<open>N\<close> itself, whatever the size of the
  deduplicated corpus is.
\<close>

theorem quota_sum_is_target:
  assumes "dedup df \<noteq> []"
  shows "\<exists>qs. final_quotas df n m = Inr qs \<and> total qs = n"
  using final_quotas_result [OF assms, of n m] by blast

theorem quota_sum_is_target_witness:
  "dedup demo_jobs \<noteq> [] \<and> (\<exists>qs. final_quotas demo_jobs 10 5 = Inr qs \<and> total qs = 10)"
proof -
  have ne: "dedup demo_jobs \<noteq> []"
    by (simp add: sampler_defs)
  from quota_sum_is_target [OF ne, of 10 5] ne show ?thesis by blast
qed

text \<open>
  C4 as stated fails: a deduplicated corpus of 4 records with target size 10 ends with
  the quotas 5 and 5, of sum 10, not \<open>min(10, 4) = 4\<close>.
\<close>

theorem quota_sum_exceeds_corpus:
  "final_quotas demo_jobs 10 5 = Inr [(''Eng'', 5), (''Health'', 5)] \<and>
   total [(''Eng'', 5), (''Health'', 5)] = 10 \<and>
   min 10 (int (length (dedup demo_jobs))) = 4"
  by (simp add: sampler_defs shrink.simps grow.simps)

lemma stratified_sample_empty:
  assumes "dedup df = []"
  shows "stratified_sample smp df n m = Inl ValueError"
proof -
  from assms have q0: "initial_quotas (value_counts (map category (dedup df))) n m = []"
    by (simp add: value_counts_Nil initial_quotas_def)
  have s: "shrink [] n = (if n < 0 then Inl ValueError else Inr [])"
    by (simp add: shrink.simps [of "[]" n] total_def)
  have g: "grow [] n = (if 0 < n then Inl ValueError else Inr [])"
    by (simp add: grow.simps [of "[]" n] total_def)
  from q0 s g have "final_quotas df n m = Inl ValueError \<or> final_quotas df n m = Inr []"
    by (simp add: final_quotas_def)
  then show ?thesis
    by (auto simp: stratified_sample_def pd_concat_def)
qed

text \<open>
  C5 (amended). If the deduplicated corpus is empty the sampler raises and returns no
  sampled set: \<^verbatim>\<open>KeyError\<close> on the frame without columns that \<^verbatim>\<open>pd.DataFrame\<close> builds from
  an empty list of jobs, \<^verbatim>\<open>ValueError\<close> (from \<^verbatim>\<open>idxmax\<close> on the empty quota series, or
  from \<^verbatim>\<open>pd.concat\<close> of no frames) on an empty frame that has the columns.
\<close>

theorem empty_corpus_raises:
  assumes "dedup (frame_rows fr) = []"
  shows "stratified_sample_frame smp fr n m =
           (case fr of NoColumns \<Rightarrow> Inl KeyError | Columns rows \<Rightarrow> Inl ValueError)"
proof (cases fr)
  case NoColumns
  then show ?thesis by simp
next
  case (Columns rows)
  with assms have "dedup rows = []" by simp
  from stratified_sample_empty [OF this] Columns show ?thesis by simp
qed

theorem empty_corpus_raises_witness:
  "stratified_sample_frame (\<lambda>k. take k) (pd_DataFrame []) 0 5 = Inl KeyError \<and>
   stratified_sample_frame (\<lambda>k. take k) (Columns []) 0 5 = Inl ValueError"
proof -
  have e: "dedup (frame_rows (pd_DataFrame [])) = []" "dedup (frame_rows (Columns [])) = []"
    by (simp_all add: dedup_def drop_duplicates_def pd_DataFrame_def)
  have f: "pd_DataFrame [] = NoColumns" by (simp add: pd_DataFrame_def)
  from empty_corpus_raises [OF e(1), of "\<lambda>k. take k" 0 5]
    empty_corpus_raises [OF e(2), of "\<lambda>k. take k" 0 5] f
  show ?thesis by simp
qed

text \<open>
  C5 as stated fails: on the frame of an empty list of jobs, with the default target size
  and minimum, the sampler raises instead of returning an empty sampled set.
\<close>

theorem empty_corpus_not_sampled:
  "stratified_sample_frame (\<lambda>k. take k) (pd_DataFrame []) 1000 5 = Inl KeyError"
  by (simp add: pd_DataFrame_def)

text \<open>
  C8 (amended). For every non-empty corpus and target size \<open>N \<ge> 0\<close> the sampler returns a
  sampled set of size at most \<open>N\<close>, and the size is smaller than \<open>N\<close> only if some
  category holds fewer records than its final quota.
\<close>

theorem sample_size_bounded:
  assumes "draws_exactly smp" and "df \<noteq> []" and "0 \<le> n"
  shows "\<exists>res qs. stratified_sample smp df n m = Inr res \<and> final_quotas df n m = Inr qs \<and>
           int (length res) \<le> n \<and>
           (int (length res) < n \<longrightarrow>
              (\<exists>p \<in> set qs. int (length (cat_df (dedup df) (fst p))) < snd p))"
proof -
  from assms(2) have "dedup df \<noteq> []" by (simp add: dedup_eq_Nil)
  from final_quotas_result [OF this, of n m] assms(3) obtain qs where
    qs: "final_quotas df n m = Inr qs" "total qs = n" "qs \<noteq> []" "nonneg qs"
    by blast
  from try_map_draw [OF assms(1) qs(4), of "dedup df"] obtain sampled where
    sm: "try_map (draw smp (dedup df)) qs = Inr sampled"
      "length (concat sampled) = sum_list (map (drawn (dedup df)) qs)"
    by blast
  from sm(1) qs(3) have "sampled \<noteq> []"
    by (auto dest: try_map_length)
  with qs(1) sm(1) have res: "stratified_sample smp df n m = Inr (concat sampled)"
    by (simp add: stratified_sample_def pd_concat_def)
  from drawn_le_total [OF qs(4), of "dedup df"] sm(2) qs(2)
  have le: "int (length (concat sampled)) \<le> n" by simp
  have "\<exists>p \<in> set qs. int (length (cat_df (dedup df) (fst p))) < snd p"
    if "int (length (concat sampled)) < n"
  proof (rule ccontr)
    assume "\<not> ?thesis"
    then have "\<forall>p \<in> set qs. snd p \<le> int (length (cat_df (dedup df) (fst p)))"
      by auto
    from drawn_eq_total [OF qs(4) this] sm(2) qs(2) that show False by simp
  qed
  with res qs(1) le show ?thesis by blast
qed

lemma draws_exactly_take: "draws_exactly (\<lambda>k. take k)"
  by (simp add: draws_exactly_def)

theorem sample_size_bounded_witness:
  "\<exists>res qs. stratified_sample (\<lambda>k. take k) demo_jobs 4 2 = Inr res \<and>
     final_quotas demo_jobs 4 2 = Inr qs \<and> length res = 3 \<and>
     (\<exists>p \<in> set qs. int (length (cat_df (dedup demo_jobs) (fst p))) < snd p)"
proof -
  have ne: "demo_jobs \<noteq> []" by (simp add: demo_jobs_def)
  have n: "(0::int) \<le> 4" by simp
  from sample_size_bounded [OF draws_exactly_take ne n, of 2] obtain res qs where
    r: "stratified_sample (\<lambda>k. take k) demo_jobs 4 2 = Inr res"
      "final_quotas demo_jobs 4 2 = Inr qs"
      "int (length res) < 4 \<longrightarrow>
         (\<exists>p \<in> set qs. int (length (cat_df (dedup demo_jobs) (fst p))) < snd p)"
    by blast
  have "map_sum id length (stratified_sample (\<lambda>k. take k) demo_jobs 4 2) = Inr 3"
    by (simp add: stratified_sample_def sampler_defs shrink.simps grow.simps draw_def
        cat_df_def sample_rows_def pd_concat_def)
  with r(1) have l: "length res = 3" by simp
  with r(3) have "\<exists>p \<in> set qs. int (length (cat_df (dedup demo_jobs) (fst p))) < snd p"
    by simp
  with r(1,2) l show ?thesis by blast
qed

text \<open>
  C8 as stated fails: the deduplicated corpus has 4 records, not fewer than the target
  size 4, yet the sampled set has 3: the category \<open>Health\<close> has one record for a quota
  of 2.
\<close>

theorem sample_smaller_than_target:
  "map_sum id length (stratified_sample (\<lambda>k. take k) demo_jobs 4 2) = Inr 3 \<and>
   length (dedup demo_jobs) = 4"
  by (simp add: stratified_sample_def sampler_defs shrink.simps grow.simps draw_def
      cat_df_def sample_rows_def pd_concat_def)

end
